theory Spec2Isabelle
  imports Main "HOL-Library.Sublist" "HOL-Library.Multiset"
begin

section \<open>The migration manager of the server (Manager, src/unnamed/part_000)\<close>

text \<open>
  The class \<^verbatim>\<open>Manager\<close> discovers the migration units of a directory, sorts them by
  version, and offers two entry points: \<^verbatim>\<open>skipPendingMigrations\<close> and
  \<^verbatim>\<open>executePendingMigrations\<close>. Both work on a MongoDB handle, on the tenants of a
  tenant cache and on the hooks \<^verbatim>\<open>up\<close>, \<^verbatim>\<open>test\<close> and \<^verbatim>\<open>down\<close> of each migration.

  The embedding passes the state explicitly. A state holds the manager object (its
  \<^verbatim>\<open>ran\<close> flag is the only field that changes), the database behind the handle, and a
  trace: the chronological list of the calls the manager made to the record store, to
  the tenant source and to the hooks. The trace is what the statements about order ("before", "never
  invoked") are about. A thrown error is a value \<open>Inl e\<close>; logging and timing
  (\<^verbatim>\<open>logger\<close>, \<^verbatim>\<open>now()\<close>) have no effect on control flow and are left out.
\<close>

subsection \<open>Data\<close>

type_synonym tenant_id = string

text \<open>
  Modelled from the spec: the type \<^verbatim>\<open>MigrationRecord\<close> of
  \<^verbatim>\<open>coral-server/models/migration\<close> is not among the sources. The spec (section 3)
  gives a record a \<^verbatim>\<open>version\<close> and a status that is one of completed, skipped and
  failed. The manager reads \<^verbatim>\<open>record.version\<close> and \<^verbatim>\<open>record.failed\<close> only. A record
  and a migration unit both have a field \<^verbatim>\<open>version\<close>; the record type \<open>Versioned\<close> is
  their common part, so that one selector \<open>version\<close> serves both.
\<close>

datatype record_status = Completed | Skipped | Failed

record Versioned =
  version :: int

record MigrationRecord = Versioned +
  status :: record_status

definition failed :: "MigrationRecord \<Rightarrow> bool" where
  "failed r = (status r = Failed)"

text \<open>
  The database behind the \<^verbatim>\<open>Db\<close> handle: the collection of migration records in
  insertion order, and the rest of the data, of which the manager knows nothing.
\<close>

record 'd Db =
  records :: "MigrationRecord list"
  data :: 'd

text \<open>
  A hook is \<^verbatim>\<open>(mongo: Db, tenantID: string) => Promise<void>\<close>. It may change
  anything in the database, and it either settles (\<open>None\<close>) or rejects with an error
  (\<open>Some e\<close>); the database it leaves behind is returned in both cases.
\<close>

type_synonym ('d, 'e) hook = "'d Db \<Rightarrow> tenant_id \<Rightarrow> 'e option \<times> 'd Db"

text \<open>
  Modelled from the spec: the class \<^verbatim>\<open>Migration\<close> (\<^verbatim>\<open>./migration\<close>) is not among
  the sources. The spec (sections 3 and 6) gives a unit a version, a name, a mandatory
  \<^verbatim>\<open>up\<close> and optional \<^verbatim>\<open>test\<close> and \<^verbatim>\<open>down\<close>; the manager tests
  \<^verbatim>\<open>migration.test\<close> and \<^verbatim>\<open>migration.down\<close> for presence before calling them.
\<close>

record ('d, 'e) Migration = Versioned +
  name :: string
  up :: "('d, 'e) hook"
  test :: "('d, 'e) hook option"
  down :: "('d, 'e) hook option"

text \<open>
  Modelled from the spec: the class \<^verbatim>\<open>TenantCache\<close> is not among the sources. The
  manager only iterates it (\<^verbatim>\<open>for await (const tenant of this.tenants)\<close>) and reads
  \<^verbatim>\<open>tenant.id\<close>. The spec (sections 6 and 9) makes it a producer of a finite sequence
  of tenant identifiers that is requested anew for each migration and is not cached, so
  that the tenant set may change between migrations. A tenant source is therefore a
  function of the database: the sequence that an iteration yields when it starts in
  that database (an iteration is a snapshot, fixed when it starts). Hooks and writes of
  the record store change the database, and with it what the next iteration yields.
\<close>

type_synonym 'd TenantCache = "'d Db \<Rightarrow> tenant_id list"

text \<open>The fields of \<^verbatim>\<open>Manager\<close>, lines 22 to 24.\<close>

record ('d, 'e) Manager =
  migrations :: "('d, 'e) Migration list"
  tenants :: "'d TenantCache"
  ran :: bool

datatype hook_kind = Up | Test | Down

text \<open>
  One event per call that leaves the manager: the four operations of the record
  store, an iteration of the tenant source with the sequence it yields, and a hook
  invocation with the migration's version, the tenant and the outcome.
\<close>

datatype 'e event =
    RetrieveAllMigrationRecords
  | CreateMigrationRecord int
  | CreateFailedMigrationRecord int
  | CreateSkippedMigrationRecords "int list"
  | IterateTenants "tenant_id list"
  | Invoke hook_kind int tenant_id "'e option"

datatype 'e error =
    AlreadyExecuted
  | IncompleteMigrations
  | FailedMigrationDetectedError MigrationRecord
  | Thrown 'e

record ('d, 'e) state =
  manager :: "('d, 'e) Manager"
  mongo :: "'d Db"
  trace :: "'e event list"

subsection \<open>The record store\<close>

text \<open>
  Modelled from the spec: the four functions of \<^verbatim>\<open>coral-server/models/migration\<close>
  are not among the sources. Section 4.2 of the spec: \<^verbatim>\<open>retrieveAllMigrationRecords\<close>
  returns the records in insertion order, \<^verbatim>\<open>createMigrationRecord\<close> appends a
  completed record, \<^verbatim>\<open>createFailedMigrationRecord\<close> a failed one, and
  \<^verbatim>\<open>createSkippedMigrationRecords\<close> appends a skipped record for each version in one
  call. Each call is atomic and succeeds: a failure of the persistence layer itself is
  outside the manager (spec, section 7) and is not modelled. Every call is logged in the
  trace.
\<close>

definition log :: "'e event \<Rightarrow> ('d, 'e) state \<Rightarrow> ('d, 'e) state" where
  "log ev s = s\<lparr>trace := trace s @ [ev]\<rparr>"

definition append_records :: "MigrationRecord list \<Rightarrow> ('d, 'e) state \<Rightarrow> ('d, 'e) state" where
  "append_records rs s = s\<lparr>mongo := (mongo s)\<lparr>records := records (mongo s) @ rs\<rparr>\<rparr>"

definition retrieveAllMigrationRecords ::
  "('d, 'e) state \<Rightarrow> MigrationRecord list \<times> ('d, 'e) state" where
  "retrieveAllMigrationRecords s = (records (mongo s), log RetrieveAllMigrationRecords s)"

definition createMigrationRecord :: "int \<Rightarrow> ('d, 'e) state \<Rightarrow> ('d, 'e) state" where
  "createMigrationRecord v s =
     log (CreateMigrationRecord v) (append_records [\<lparr>version = v, status = Completed\<rparr>] s)"

definition createFailedMigrationRecord :: "int \<Rightarrow> ('d, 'e) state \<Rightarrow> ('d, 'e) state" where
  "createFailedMigrationRecord v s =
     log (CreateFailedMigrationRecord v) (append_records [\<lparr>version = v, status = Failed\<rparr>] s)"

definition createSkippedMigrationRecords :: "int list \<Rightarrow> ('d, 'e) state \<Rightarrow> ('d, 'e) state" where
  "createSkippedMigrationRecords vs s =
     log (CreateSkippedMigrationRecords vs)
       (append_records (map (\<lambda>v. \<lparr>version = v, status = Skipped\<rparr>) vs) s)"

subsection \<open>The constructor: sorting the discovered migrations\<close>

text \<open>
  The comparator of lines 69 to 79, and \<^verbatim>\<open>Array.prototype.sort\<close> as a stable insertion
  sort driven by a comparator (an element moves right past the elements it compares
  greater than).
\<close>

definition byVersion :: "('d, 'e) Migration \<Rightarrow> ('d, 'e) Migration \<Rightarrow> int" where
  "byVersion a b =
     (if version a < version b then - 1
      else if version a > version b then 1
      else 0)"

fun insert_sorted :: "('a \<Rightarrow> 'a \<Rightarrow> int) \<Rightarrow> 'a \<Rightarrow> 'a list \<Rightarrow> 'a list" where
  "insert_sorted cmp x [] = [x]"
| "insert_sorted cmp x (y # ys) =
     (if cmp x y \<le> 0 then x # y # ys else y # insert_sorted cmp x ys)"

definition Array_sort :: "('a \<Rightarrow> 'a \<Rightarrow> int) \<Rightarrow> 'a list \<Rightarrow> 'a list" where
  "Array_sort cmp xs = foldr (insert_sorted cmp) xs []"

text \<open>
  The constructor (lines 26 to 80). Reading the directory, matching the file names and
  loading the modules are input: \<open>discovered\<close> is the list of migration instances in
  the order in which the loop pushes them.
\<close>

definition Manager_new ::
  "('d, 'e) Migration list \<Rightarrow> 'd TenantCache \<Rightarrow> ('d, 'e) Manager" where
  "Manager_new discovered tenantCache =
     \<lparr>migrations = Array_sort byVersion discovered, tenants = tenantCache, ran = False\<rparr>"

subsection \<open>pending and currentMigration\<close>

text \<open>
  Lines 87 to 101. \<^verbatim>\<open>records.forEach\<close> throws at the first failed record;
  \<^verbatim>\<open>records.find\<close> returns the first record of the same version or undefined.
\<close>

definition pending ::
  "('d, 'e) state \<Rightarrow> ('e error + ('d, 'e) Migration list) \<times> ('d, 'e) state" where
  "pending s =
     (case retrieveAllMigrationRecords s of (rs, s') \<Rightarrow>
        (case find failed rs of
           Some r \<Rightarrow> (Inl (FailedMigrationDetectedError r), s')
         | None \<Rightarrow>
            (Inr (filter (\<lambda>migration.
                    \<not> (find (\<lambda>r. version migration = version r) rs \<noteq> None))
                  (migrations (manager s'))), s')))"

definition currentMigration ::
  "('d, 'e) state \<Rightarrow> MigrationRecord option \<times> ('d, 'e) state" where
  "currentMigration s =
     (case retrieveAllMigrationRecords s of (rs, s') \<Rightarrow>
        (if length rs > 0 then Some (last rs) else None, s'))"

subsection \<open>skipPendingMigrations\<close>

definition mark_ran :: "('d, 'e) state \<Rightarrow> ('d, 'e) state" where
  "mark_ran s = s\<lparr>manager := (manager s)\<lparr>ran := True\<rparr>\<rparr>"

definition skipPendingMigrations ::
  "('d, 'e) state \<Rightarrow> ('e error + unit) \<times> ('d, 'e) state" where
  "skipPendingMigrations s =
     (if ran (manager s) then (Inl AlreadyExecuted, s)
      else
        (case currentMigration (mark_ran s) of
           (Some r, s') \<Rightarrow> (Inl IncompleteMigrations, s')
         | (None, s') \<Rightarrow>
             (Inr (), createSkippedMigrationRecords (map version (migrations (manager s'))) s')))"

subsection \<open>executePendingMigrations\<close>

definition invoke ::
  "hook_kind \<Rightarrow> ('d, 'e) Migration \<Rightarrow> ('d, 'e) hook \<Rightarrow> tenant_id \<Rightarrow> ('d, 'e) state
     \<Rightarrow> 'e option \<times> ('d, 'e) state" where
  "invoke k migration h t s =
     (case h (mongo s) t of (r, db) \<Rightarrow>
        (r, log (Invoke k (version migration) t r) (s\<lparr>mongo := db\<rparr>)))"

text \<open>The catch block, lines 190 to 209; \<open>err\<close> is the error caught.\<close>

definition rollback ::
  "('d, 'e) Migration \<Rightarrow> tenant_id \<Rightarrow> 'e \<Rightarrow> ('d, 'e) state
     \<Rightarrow> ('e error + unit) \<times> ('d, 'e) state" where
  "rollback migration t err s =
     (case down migration of
        Some d \<Rightarrow>
          (case invoke Down migration d t s of
             (Some err', s') \<Rightarrow> (Inl (Thrown err'), s')
           | (None, s') \<Rightarrow>
               (Inl (Thrown err), createFailedMigrationRecord (version migration) s'))
      | None \<Rightarrow> (Inl (Thrown err), createFailedMigrationRecord (version migration) s))"

text \<open>The body of the tenant loop, lines 177 to 212.\<close>

definition runTenant ::
  "('d, 'e) Migration \<Rightarrow> tenant_id \<Rightarrow> ('d, 'e) state \<Rightarrow> ('e error + unit) \<times> ('d, 'e) state" where
  "runTenant migration t s =
     (case invoke Up migration (up migration) t s of
        (Some err, s1) \<Rightarrow> rollback migration t err s1
      | (None, s1) \<Rightarrow>
          (case test migration of
             None \<Rightarrow> (Inr (), s1)
           | Some tst \<Rightarrow>
               (case invoke Test migration tst t s1 of
                  (Some err, s2) \<Rightarrow> rollback migration t err s2
                | (None, s2) \<Rightarrow> (Inr (), s2))))"

text \<open>The loop over the tenants, line 176.\<close>

fun forTenants ::
  "('d, 'e) Migration \<Rightarrow> tenant_id list \<Rightarrow> ('d, 'e) state \<Rightarrow> ('e error + unit) \<times> ('d, 'e) state" where
  "forTenants migration [] s = (Inr (), s)"
| "forTenants migration (t # ts) s =
     (case runTenant migration t s of
        (Inl e, s') \<Rightarrow> (Inl e, s')
      | (Inr _, s') \<Rightarrow> forTenants migration ts s')"

text \<open>
  Starting \<^verbatim>\<open>for await (const tenant of this.tenants)\<close>, line 176: the tenant source
  yields its sequence for the database as it is now.
\<close>

definition iterateTenants :: "('d, 'e) state \<Rightarrow> tenant_id list \<times> ('d, 'e) state" where
  "iterateTenants s =
     (tenants (manager s) (mongo s), log (IterateTenants (tenants (manager s) (mongo s))) s)"

text \<open>
  The loop over the pending migrations, lines 167 to 217. The tenant source is iterated
  anew for each migration.
\<close>

fun forMigrations ::
  "('d, 'e) Migration list \<Rightarrow> ('d, 'e) state \<Rightarrow> ('e error + unit) \<times> ('d, 'e) state" where
  "forMigrations [] s = (Inr (), s)"
| "forMigrations (migration # ms) s =
     (case iterateTenants s of (ts, s0) \<Rightarrow>
        (case forTenants migration ts s0 of
           (Inl e, s') \<Rightarrow> (Inl e, s')
         | (Inr _, s') \<Rightarrow> forMigrations ms (createMigrationRecord (version migration) s')))"

definition executePendingMigrations ::
  "('d, 'e) state \<Rightarrow> ('e error + unit) \<times> ('d, 'e) state" where
  "executePendingMigrations s =
     (if ran (manager s) then (Inl AlreadyExecuted, s)
      else
        (case currentMigration (mark_ran s) of (current, s1) \<Rightarrow>
           (case pending s1 of
              (Inl e, s2) \<Rightarrow> (Inl e, s2)
            | (Inr ps, s2) \<Rightarrow>
                (if length ps = 0 then (Inr (), s2)
                 else
                   (case forMigrations ps s2 of
                      (Inl e, s3) \<Rightarrow> (Inl e, s3)
                    | (Inr _, s3) \<Rightarrow>
                        (case currentMigration s3 of (current', s4) \<Rightarrow> (Inr (), s4)))))))"

subsection \<open>What a trace looks like\<close>

text \<open>
  The events of a tenant for which a migration succeeds, of a migration whose iteration
  yields \<open>ts\<close> and that succeeds for every tenant of \<open>ts\<close> (the iteration comes first, the
  completed record last), and of the catch block: \<open>r\<close> is the outcome of \<^verbatim>\<open>down\<close>, and
  the failed record is written only when \<^verbatim>\<open>down\<close> is absent or settles.
\<close>

definition tenantEvents :: "('d, 'e) Migration \<Rightarrow> tenant_id \<Rightarrow> 'e event list" where
  "tenantEvents migration t =
     Invoke Up (version migration) t None #
     (case test migration of
        None \<Rightarrow> []
      | Some _ \<Rightarrow> [Invoke Test (version migration) t None])"

definition migrationEvents :: "tenant_id list \<Rightarrow> ('d, 'e) Migration \<Rightarrow> 'e event list" where
  "migrationEvents ts migration =
     IterateTenants ts # concat (map (tenantEvents migration) ts) @
     [CreateMigrationRecord (version migration)]"

definition rollbackEvents :: "('d, 'e) Migration \<Rightarrow> tenant_id \<Rightarrow> 'e option \<Rightarrow> 'e event list" where
  "rollbackEvents migration t r =
     (case down migration of
        None \<Rightarrow> []
      | Some _ \<Rightarrow> [Invoke Down (version migration) t r]) @
     (case r of
        None \<Rightarrow> [CreateFailedMigrationRecord (version migration)]
      | Some _ \<Rightarrow> [])"

definition failureEvents ::
  "('d, 'e) Migration \<Rightarrow> tenant_id \<Rightarrow> hook_kind \<Rightarrow> 'e \<Rightarrow> 'e option \<Rightarrow> 'e event list" where
  "failureEvents migration t k e r =
     (if k = Test then [Invoke Up (version migration) t None] else []) @
     Invoke k (version migration) t (Some e) # rollbackEvents migration t r"

fun is_hook :: "'e event \<Rightarrow> bool" where
  "is_hook (Invoke k v t r) = True"
| "is_hook ev = False"

fun is_completed :: "'e event \<Rightarrow> bool" where
  "is_completed (CreateMigrationRecord v) = True"
| "is_completed ev = False"

fun is_failure :: "'e event \<Rightarrow> bool" where
  "is_failure (Invoke Up v t (Some e)) = True"
| "is_failure (Invoke Test v t (Some e)) = True"
| "is_failure ev = False"

text \<open>
  A run that was aborted by the catch block for tenant \<open>t\<close> of a migration: \<open>pre\<close> is
  the trace up to the tenant's first hook, \<open>s'\<close> the state and \<open>res\<close> the result the run
  ends with. The error that propagates is the one of \<^verbatim>\<open>down\<close> if \<^verbatim>\<open>down\<close> rejects, and
  the original one otherwise.
\<close>

definition aborted ::
  "('d, 'e) Migration \<Rightarrow> tenant_id \<Rightarrow> 'e event list \<Rightarrow> ('d, 'e) state \<Rightarrow> 'e error + unit \<Rightarrow> bool" where
  "aborted migration t pre s' res \<longleftrightarrow>
     (\<exists>k e r. k \<noteq> Down \<and> (down migration = None \<longrightarrow> r = None) \<and>
        trace s' = pre @ failureEvents migration t k e r \<and>
        res = Inl (Thrown (case r of None \<Rightarrow> e | Some e' \<Rightarrow> e')) \<and>
        (r = None \<longrightarrow> records (mongo s') \<noteq> [] \<and>
           last (records (mongo s')) = \<lparr>version = version migration, status = Failed\<rparr>))"

subsection \<open>Sequences of calls\<close>

text \<open>
  The two public entry points, and a caller that invokes them one after the other on
  the same manager instance and the same database, collecting the results.
\<close>

datatype entry = SkipPending | ExecutePending

fun call :: "entry \<Rightarrow> ('d, 'e) state \<Rightarrow> ('e error + unit) \<times> ('d, 'e) state" where
  "call SkipPending s = skipPendingMigrations s"
| "call ExecutePending s = executePendingMigrations s"

fun calls :: "entry list \<Rightarrow> ('d, 'e) state \<Rightarrow> ('e error + unit) list \<times> ('d, 'e) state" where
  "calls [] s = ([], s)"
| "calls (c # cs) s =
     (case call c s of (r, s') \<Rightarrow>
        (case calls cs s' of (rs, s'') \<Rightarrow> (r # rs, s'')))"

subsection \<open>Example migrations\<close>

text \<open>
  Hooks over a database whose data is a counter: \<open>bump\<close> and \<open>revert\<close> change it,
  \<open>check\<close> leaves it alone, \<open>reject e\<close> fails with \<open>e\<close>. The units below combine them.
  The tenant source \<open>always ts\<close> yields \<open>ts\<close> at every iteration; \<open>growing\<close> yields one
  tenant while the record store is empty and two afterwards. \<open>fresh\<close> is the state
  right after the constructor, with the given records in the store.
\<close>

definition bump :: "(nat, string) hook" where
  "bump db t = (None, db\<lparr>data := data db + 1\<rparr>)"

definition revert :: "(nat, string) hook" where
  "revert db t = (None, db\<lparr>data := data db - 1\<rparr>)"

definition check :: "(nat, string) hook" where
  "check db t = (None, db)"

definition reject :: "string \<Rightarrow> (nat, string) hook" where
  "reject e db t = (Some e, db)"

definition unit_plain :: "int \<Rightarrow> (nat, string) Migration" where
  "unit_plain v = \<lparr>version = v, name = ''plain'', up = bump, test = None, down = None\<rparr>"

definition unit_full :: "int \<Rightarrow> (nat, string) Migration" where
  "unit_full v =
     \<lparr>version = v, name = ''full'', up = bump, test = Some check, down = Some revert\<rparr>"

definition unit_up_fails :: "int \<Rightarrow> (nat, string) Migration" where
  "unit_up_fails v =
     \<lparr>version = v, name = ''up_fails'', up = reject ''up failed'', test = None,
      down = Some revert\<rparr>"

definition unit_down_fails :: "int \<Rightarrow> (nat, string) Migration" where
  "unit_down_fails v =
     \<lparr>version = v, name = ''down_fails'', up = reject ''up failed'', test = None,
      down = Some (reject ''down failed'')\<rparr>"

definition unit_test_fails :: "int \<Rightarrow> (nat, string) Migration" where
  "unit_test_fails v =
     \<lparr>version = v, name = ''test_fails'', up = bump, test = Some (reject ''test failed''),
      down = Some (reject ''down failed'')\<rparr>"

definition always :: "tenant_id list \<Rightarrow> 'd TenantCache" where
  "always ts db = ts"

definition growing :: "'d TenantCache" where
  "growing db = (if records db = [] then [''t1''] else [''t1'', ''t2''])"

definition fresh ::
  "(nat, string) Migration list \<Rightarrow> nat TenantCache \<Rightarrow> MigrationRecord list
     \<Rightarrow> (nat, string) state" where
  "fresh discovered tenantCache rs =
     \<lparr>manager = Manager_new discovered tenantCache,
      mongo = \<lparr>records = rs, data = 0\<rparr>,
      trace = []\<rparr>"

section \<open>Properties\<close>

lemma find_failed_None: "find failed rs = None \<longleftrightarrow> (\<forall>r\<in>set rs. \<not> failed r)"
  by (auto simp: find_None_iff)

subsection \<open>The effect of each step on the trace\<close>

lemma trace_log [simp]: "trace (log ev s) = trace s @ [ev]"
  and manager_log [simp]: "manager (log ev s) = manager s"
  and mongo_log [simp]: "mongo (log ev s) = mongo s"
  by (simp_all add: log_def)

lemma trace_append_records [simp]: "trace (append_records rs s) = trace s"
  and manager_append_records [simp]: "manager (append_records rs s) = manager s"
  and records_append_records [simp]: "records (mongo (append_records rs s)) = records (mongo s) @ rs"
  and data_append_records [simp]: "data (mongo (append_records rs s)) = data (mongo s)"
  by (simp_all add: append_records_def)

lemma invoke_effect:
  assumes "invoke k m h t s = (r, s')"
  shows "trace s' = trace s @ [Invoke k (version m) t r]" and "manager s' = manager s"
  using assms by (auto simp: invoke_def split: prod.splits)

lemma rollback_effect:
  assumes "rollback m t err s = (res, s')"
  obtains r where "manager s' = manager s" and "down m = None \<longrightarrow> r = None"
    and "trace s' = trace s @ rollbackEvents m t r"
    and "res = Inl (Thrown (case r of None \<Rightarrow> err | Some e' \<Rightarrow> e'))"
    and "r = None \<longrightarrow> records (mongo s') \<noteq> [] \<and>
             last (records (mongo s')) = \<lparr>version = version m, status = Failed\<rparr>"
proof (cases "down m")
  case None
  with assms show ?thesis
    by (intro that [of None])
      (auto simp: rollback_def rollbackEvents_def createFailedMigrationRecord_def)
next
  case (Some d)
  obtain r s1 where inv: "invoke Down m d t s = (r, s1)" by (cases "invoke Down m d t s")
  note eff = invoke_effect [OF inv]
  show ?thesis
  proof (cases r)
    case None
    with assms Some inv eff show ?thesis
      by (intro that [of None])
        (auto simp: rollback_def rollbackEvents_def createFailedMigrationRecord_def)
  next
    case (Some e')
    with assms \<open>down m = Some d\<close> inv eff show ?thesis
      by (intro that [of "Some e'"]) (auto simp: rollback_def rollbackEvents_def)
  qed
qed

lemma runTenant_effect:
  assumes "runTenant m t s = (res, s')"
  shows "manager s' = manager s"
    and "res = Inr () \<Longrightarrow> trace s' = trace s @ tenantEvents m t"
    and "res \<noteq> Inr () \<Longrightarrow> aborted m t (trace s) s' res"
proof -
  obtain r1 s1 where up: "invoke Up m (up m) t s = (r1, s1)"
    by (cases "invoke Up m (up m) t s")
  note e1 = invoke_effect [OF up]
  have "manager s' = manager s \<and> (res = Inr () \<longrightarrow> trace s' = trace s @ tenantEvents m t) \<and>
    (res \<noteq> Inr () \<longrightarrow> aborted m t (trace s) s' res)"
  proof (cases r1)
    case (Some err)
    with assms up have rb: "rollback m t err s1 = (res, s')"
      by (simp add: runTenant_def)
    from rb obtain r where r: "manager s' = manager s1"
      "down m = None \<longrightarrow> r = None" "trace s' = trace s1 @ rollbackEvents m t r"
      "res = Inl (Thrown (case r of None \<Rightarrow> err | Some e' \<Rightarrow> e'))"
      "r = None \<longrightarrow> records (mongo s') \<noteq> [] \<and>
             last (records (mongo s')) = \<lparr>version = version m, status = Failed\<rparr>"
      by (rule rollback_effect)
    from r(3) e1(1) Some have tr: "trace s' = trace s @ failureEvents m t Up err r"
      by (simp add: failureEvents_def)
    have "aborted m t (trace s) s' res"
      unfolding aborted_def
      apply (intro exI [of _ Up] exI [of _ err] exI [of _ r])
      using r(2,4,5) tr by simp
    moreover have "manager s' = manager s" using r(1) e1(2) by simp
    moreover have "res \<noteq> Inr ()" using r(4) by simp
    ultimately show ?thesis by simp
  next
    case None
    note up_ok = this
    show ?thesis
    proof (cases "test m")
      case None
      with assms up up_ok e1 show ?thesis
        by (auto simp: runTenant_def tenantEvents_def)
    next
      case (Some tst)
      obtain r2 s2 where tst: "invoke Test m tst t s1 = (r2, s2)"
        by (cases "invoke Test m tst t s1")
      note e2 = invoke_effect [OF tst]
      show ?thesis
      proof (cases r2)
        case None
        with assms up up_ok Some tst e1 e2 show ?thesis
          by (auto simp: runTenant_def tenantEvents_def)
      next
        case (Some err)
        with assms up up_ok \<open>test m = Some tst\<close> tst have rb: "rollback m t err s2 = (res, s')"
          by (simp add: runTenant_def)
        from rb obtain r where r: "manager s' = manager s2"
          "down m = None \<longrightarrow> r = None" "trace s' = trace s2 @ rollbackEvents m t r"
          "res = Inl (Thrown (case r of None \<Rightarrow> err | Some e' \<Rightarrow> e'))"
          "r = None \<longrightarrow> records (mongo s') \<noteq> [] \<and>
             last (records (mongo s')) = \<lparr>version = version m, status = Failed\<rparr>"
          by (rule rollback_effect)
        from r(3) e1(1) e2(1) Some up_ok have tr: "trace s' = trace s @ failureEvents m t Test err r"
          by (simp add: failureEvents_def)
        have "aborted m t (trace s) s' res"
          unfolding aborted_def
          apply (intro exI [of _ Test] exI [of _ err] exI [of _ r])
          using r(2,4,5) tr by simp
        moreover have "manager s' = manager s" using r(1) e1(2) e2(2) by simp
        moreover have "res \<noteq> Inr ()" using r(4) by simp
        ultimately show ?thesis by simp
      qed
    qed
  qed
  then show "manager s' = manager s"
    and "res = Inr () \<Longrightarrow> trace s' = trace s @ tenantEvents m t"
    and "res \<noteq> Inr () \<Longrightarrow> aborted m t (trace s) s' res"
    by simp_all
qed

lemma forTenants_effect:
  assumes "forTenants m ts s = (res, s')"
  shows "manager s' = manager s \<and>
    (res = Inr () \<longrightarrow> trace s' = trace s @ concat (map (tenantEvents m) ts)) \<and>
    (res \<noteq> Inr () \<longrightarrow> (\<exists>j<length ts.
        aborted m (ts ! j) (trace s @ concat (map (tenantEvents m) (take j ts))) s' res))"
  using assms
proof (induction ts arbitrary: s)
  case Nil
  then show ?case by auto
next
  case (Cons t ts)
  obtain r1 s1 where rt: "runTenant m t s = (r1, s1)" by (cases "runTenant m t s")
  note e1 = runTenant_effect [OF rt]
  show ?case
  proof (cases r1)
    case (Inl e)
    with Cons.prems rt have "res = r1" "s' = s1" by auto
    with e1 Inl have "0 < length (t # ts) \<and>
      aborted m ((t # ts) ! 0) (trace s @ concat (map (tenantEvents m) (take 0 (t # ts)))) s' res"
      by simp
    then have "\<exists>j<length (t # ts).
        aborted m ((t # ts) ! j) (trace s @ concat (map (tenantEvents m) (take j (t # ts)))) s' res"
      by (rule exI)
    moreover have "manager s' = manager s" "res \<noteq> Inr ()"
      using \<open>res = r1\<close> \<open>s' = s1\<close> e1(1) Inl by simp_all
    ultimately show ?thesis by simp
  next
    case (Inr u)
    with Cons.prems rt have rest: "forTenants m ts s1 = (res, s')" by simp
    note ih = Cons.IH [OF rest]
    from Inr have tr1: "trace s1 = trace s @ tenantEvents m t" using e1 by simp
    show ?thesis
    proof (cases "res = Inr ()")
      case True
      with ih tr1 e1 show ?thesis by simp
    next
      case False
      with ih obtain j where j: "j < length ts"
        "aborted m (ts ! j) (trace s1 @ concat (map (tenantEvents m) (take j ts))) s' res"
        by blast
      then have "Suc j < length (t # ts) \<and>
        aborted m ((t # ts) ! Suc j) (trace s @ concat (map (tenantEvents m) (take (Suc j) (t # ts)))) s' res"
        using tr1 by simp
      then have "\<exists>j<length (t # ts).
        aborted m ((t # ts) ! j) (trace s @ concat (map (tenantEvents m) (take j (t # ts)))) s' res"
        by (rule exI)
      moreover have "manager s' = manager s" using ih e1(1) by simp
      ultimately show ?thesis using False by simp
    qed
  qed
qed

lemma createMigrationRecord_effect:
  "trace (createMigrationRecord v s) = trace s @ [CreateMigrationRecord v]"
  "manager (createMigrationRecord v s) = manager s"
  by (simp_all add: createMigrationRecord_def)

lemma forMigrations_effect:
  assumes "forMigrations ms s = (res, s')"
  shows "manager s' = manager s \<and>
    (res = Inr () \<longrightarrow> (\<exists>tss. length tss = length ms \<and>
        trace s' = trace s @ concat (map2 migrationEvents tss ms))) \<and>
    (res \<noteq> Inr () \<longrightarrow> (\<exists>i tss ts j. i < length ms \<and> length tss = i \<and> j < length ts \<and>
        aborted (ms ! i) (ts ! j)
          (trace s @ concat (map2 migrationEvents tss (take i ms)) @
             IterateTenants ts # concat (map (tenantEvents (ms ! i)) (take j ts))) s' res))"
  using assms
proof (induction ms arbitrary: s)
  case Nil
  then show ?case by auto
next
  case (Cons m ms)
  let ?ts = "tenants (manager s) (mongo s)"
  let ?s0 = "log (IterateTenants ?ts) s"
  obtain r1 s1 where ft: "forTenants m ?ts ?s0 = (r1, s1)" by (cases "forTenants m ?ts ?s0")
  note e1 = forTenants_effect [OF ft]
  have s0: "trace ?s0 = trace s @ [IterateTenants ?ts]" "manager ?s0 = manager s"
    by simp_all
  show ?case
  proof (cases r1)
    case (Inl e)
    with Cons.prems ft have eq: "res = r1" "s' = s1" by (auto simp: iterateTenants_def)
    from eq Inl have ne: "res \<noteq> Inr ()" by simp
    with e1 eq obtain j where j: "j < length ?ts"
      "aborted m (?ts ! j) (trace ?s0 @ concat (map (tenantEvents m) (take j ?ts))) s' res"
      by blast
    then have "0 < length (m # ms) \<and> length ([] :: tenant_id list list) = 0 \<and> j < length ?ts \<and>
        aborted ((m # ms) ! 0) (?ts ! j)
          (trace s @ concat (map2 migrationEvents [] (take 0 (m # ms))) @
             IterateTenants ?ts # concat (map (tenantEvents ((m # ms) ! 0)) (take j ?ts))) s' res"
      by simp
    then have "\<exists>i tss ts j. i < length (m # ms) \<and> length tss = i \<and> j < length ts \<and>
        aborted ((m # ms) ! i) (ts ! j)
          (trace s @ concat (map2 migrationEvents tss (take i (m # ms))) @
             IterateTenants ts # concat (map (tenantEvents ((m # ms) ! i)) (take j ts))) s' res"
      by blast
    moreover have "manager s' = manager s" using eq e1 s0 by simp
    ultimately show ?thesis using ne by simp
  next
    case (Inr u)
    let ?s2 = "createMigrationRecord (version m) s1"
    from Inr Cons.prems ft have rest: "forMigrations ms ?s2 = (res, s')"
      by (simp add: iterateTenants_def)
    note ih = Cons.IH [OF rest]
    from Inr e1 s0 have tr1: "trace ?s2 = trace s @ migrationEvents ?ts m"
      and mg: "manager ?s2 = manager s"
      by (simp_all add: migrationEvents_def createMigrationRecord_effect)
    have m': "manager s' = manager s" using ih mg by simp
    show ?thesis
    proof (cases "res = Inr ()")
      case True
      with ih obtain tss where tss: "length tss = length ms"
        "trace s' = trace ?s2 @ concat (map2 migrationEvents tss ms)"
        by blast
      then have "length (?ts # tss) = length (m # ms) \<and>
        trace s' = trace s @ concat (map2 migrationEvents (?ts # tss) (m # ms))"
        using tr1 by simp
      then have "\<exists>tss. length tss = length (m # ms) \<and>
        trace s' = trace s @ concat (map2 migrationEvents tss (m # ms))"
        by (rule exI)
      with True m' show ?thesis by simp
    next
      case False
      with ih obtain i tss ts j where ij: "i < length ms" "length tss = i" "j < length ts"
        "aborted (ms ! i) (ts ! j)
          (trace ?s2 @ concat (map2 migrationEvents tss (take i ms)) @
             IterateTenants ts # concat (map (tenantEvents (ms ! i)) (take j ts))) s' res"
        by blast
      then have "Suc i < length (m # ms) \<and> length (?ts # tss) = Suc i \<and> j < length ts \<and>
        aborted ((m # ms) ! Suc i) (ts ! j)
          (trace s @ concat (map2 migrationEvents (?ts # tss) (take (Suc i) (m # ms))) @
             IterateTenants ts # concat (map (tenantEvents ((m # ms) ! Suc i)) (take j ts))) s' res"
        using tr1 by simp
      then have "\<exists>i tss ts j. i < length (m # ms) \<and> length tss = i \<and> j < length ts \<and>
        aborted ((m # ms) ! i) (ts ! j)
          (trace s @ concat (map2 migrationEvents tss (take i (m # ms))) @
             IterateTenants ts # concat (map (tenantEvents ((m # ms) ! i)) (take j ts))) s' res"
        by blast
      with False m' show ?thesis by simp
    qed
  qed
qed

lemma snd_retrieveAll [simp]: "snd (retrieveAllMigrationRecords s) = log RetrieveAllMigrationRecords s"
  and fst_retrieveAll [simp]: "fst (retrieveAllMigrationRecords s) = records (mongo s)"
  by (simp_all add: retrieveAllMigrationRecords_def)

lemma snd_pending: "snd (pending s) = log RetrieveAllMigrationRecords s"
  by (simp add: pending_def retrieveAllMigrationRecords_def split: option.splits)

lemma fst_pending_cong:
  assumes "records (mongo s1) = records (mongo s2)"
    and "migrations (manager s1) = migrations (manager s2)"
  shows "fst (pending s1) = fst (pending s2)"
  using assms by (simp add: pending_def retrieveAllMigrationRecords_def split: option.splits)

lemma snd_currentMigration: "snd (currentMigration s) = log RetrieveAllMigrationRecords s"
  by (simp add: currentMigration_def retrieveAllMigrationRecords_def)

lemma mark_ran_simps [simp]:
  "trace (mark_ran s) = trace s" "mongo (mark_ran s) = mongo s"
  "migrations (manager (mark_ran s)) = migrations (manager s)"
  "tenants (manager (mark_ran s)) = tenants (manager s)"
  "ran (manager (mark_ran s))"
  by (simp_all add: mark_ran_def)

text \<open>
  On a manager that has not run, \<^verbatim>\<open>executePendingMigrations\<close> reads the records twice
  (for \<^verbatim>\<open>currentMigration\<close> and for \<^verbatim>\<open>pending\<close>) and then enters the loop.
\<close>

lemma executePendingMigrations_unfold:
  assumes "\<not> ran (manager s)"
  shows "executePendingMigrations s =
    (let s2 = log RetrieveAllMigrationRecords (log RetrieveAllMigrationRecords (mark_ran s)) in
     case fst (pending s) of
       Inl e \<Rightarrow> (Inl e, s2)
     | Inr ps \<Rightarrow>
         if ps = [] then (Inr (), s2)
         else (case forMigrations ps s2 of
                 (Inl e, s3) \<Rightarrow> (Inl e, s3)
               | (Inr u, s3) \<Rightarrow> (Inr (), log RetrieveAllMigrationRecords s3)))"
  using assms
  by (auto simp: executePendingMigrations_def currentMigration_def pending_def
      retrieveAllMigrationRecords_def Let_def split: option.splits prod.splits sum.splits)


lemma executePendingMigrations_effect:
  assumes nr: "\<not> ran (manager s)" and pd: "fst (pending s) = Inr ps"
    and run: "executePendingMigrations s = (res, s')"
  shows "manager s' = manager (mark_ran s)"
    and "res = Inr () \<Longrightarrow> \<exists>tss. length tss = length ps \<and>
      trace s' = trace s @ [RetrieveAllMigrationRecords, RetrieveAllMigrationRecords] @
        concat (map2 migrationEvents tss ps) @
        (if ps = [] then [] else [RetrieveAllMigrationRecords])"
    and "res \<noteq> Inr () \<Longrightarrow> \<exists>i tss ts j. i < length ps \<and> length tss = i \<and> j < length ts \<and>
      aborted (ps ! i) (ts ! j)
        (trace s @ [RetrieveAllMigrationRecords, RetrieveAllMigrationRecords] @
           concat (map2 migrationEvents tss (take i ps)) @
           IterateTenants ts # concat (map (tenantEvents (ps ! i)) (take j ts))) s' res"
proof -
  let ?R = "RetrieveAllMigrationRecords :: 'b event"
  let ?s2 = "log ?R (log ?R (mark_ran s))"
  have s2: "trace ?s2 = trace s @ [?R, ?R]" "manager ?s2 = manager (mark_ran s)"
    by simp_all
  have goal: "manager s' = manager (mark_ran s) \<and>
    (res = Inr () \<longrightarrow> (\<exists>tss. length tss = length ps \<and>
      trace s' = trace s @ [?R, ?R] @ concat (map2 migrationEvents tss ps) @
        (if ps = [] then [] else [?R]))) \<and>
    (res \<noteq> Inr () \<longrightarrow> (\<exists>i tss ts j. i < length ps \<and> length tss = i \<and> j < length ts \<and>
      aborted (ps ! i) (ts ! j)
        (trace s @ [?R, ?R] @ concat (map2 migrationEvents tss (take i ps)) @
           IterateTenants ts # concat (map (tenantEvents (ps ! i)) (take j ts))) s' res))"
  proof (cases "ps = []")
    case True
    with run nr pd have "res = Inr ()" "s' = ?s2"
      by (simp_all add: executePendingMigrations_unfold)
    with True s2 show ?thesis by simp
  next
    case False
    obtain r3 s3 where fm: "forMigrations ps ?s2 = (r3, s3)"
      by (cases "forMigrations ps ?s2")
    note eff = forMigrations_effect [OF fm, unfolded s2 append_assoc]
    show ?thesis
    proof (cases r3)
      case (Inl e)
      with run nr pd False fm have eq: "res = r3" "s' = s3"
        by (simp_all add: executePendingMigrations_unfold)
      with Inl have "res \<noteq> Inr ()" by simp
      with eff eq show ?thesis by simp
    next
      case (Inr u)
      with run nr pd False fm have eq: "res = Inr ()" "s' = log ?R s3"
        by (simp_all add: executePendingMigrations_unfold)
      with eff Inr False show ?thesis by simp
    qed
  qed
  then show "manager s' = manager (mark_ran s)"
    and "res = Inr () \<Longrightarrow> \<exists>tss. length tss = length ps \<and>
      trace s' = trace s @ [RetrieveAllMigrationRecords, RetrieveAllMigrationRecords] @
        concat (map2 migrationEvents tss ps) @
        (if ps = [] then [] else [RetrieveAllMigrationRecords])"
    and "res \<noteq> Inr () \<Longrightarrow> \<exists>i tss ts j. i < length ps \<and> length tss = i \<and> j < length ts \<and>
      aborted (ps ! i) (ts ! j)
        (trace s @ [RetrieveAllMigrationRecords, RetrieveAllMigrationRecords] @
           concat (map2 migrationEvents tss (take i ps)) @
           IterateTenants ts # concat (map (tenantEvents (ps ! i)) (take j ts))) s' res"
    by simp_all
qed

lemma executePendingMigrations_pending_fails:
  assumes "\<not> ran (manager s)" and "fst (pending s) = Inl e"
  shows "executePendingMigrations s =
    (Inl e, log RetrieveAllMigrationRecords (log RetrieveAllMigrationRecords (mark_ran s)))"
  using assms by (simp add: executePendingMigrations_unfold)

subsection \<open>Splitting a trace at an event\<close>

lemma split_at_first:
  assumes "us @ a # vs = pre @ c # post" and "\<forall>x\<in>set us. \<not> P x" and "P c"
  shows "(pre = us \<and> c = a \<and> post = vs) \<or> (\<exists>pre'. pre = us @ a # pre' \<and> vs = pre' @ c # post)"
  using assms
proof (induction us arbitrary: pre)
  case Nil
  then show ?case by (cases pre) auto
next
  case (Cons u us)
  show ?case
  proof (cases pre)
    case Nil
    with Cons.prems show ?thesis by auto
  next
    case (Cons p pre'')
    with Cons.prems have "us @ a # vs = pre'' @ c # post" "p = u" by simp_all
    with Cons.IH [of pre''] Cons.prems \<open>pre = p # pre''\<close> show ?thesis by auto
  qed
qed

lemma split_unique:
  assumes "us @ a # vs = pre @ c # post" and "\<forall>x\<in>set us. \<not> P x" and "P c"
    and "\<forall>x\<in>set vs. \<not> P x"
  shows "pre = us \<and> c = a \<and> post = vs"
  using split_at_first [OF assms(1-3)] assms(3,4) by auto

lemma split_none:
  assumes "us = pre @ c # post" and "\<forall>x\<in>set us. \<not> P x"
  shows "\<not> P c"
  using assms by auto

lemma tenantEvents_no_completed: "ev \<in> set (tenantEvents m t) \<Longrightarrow> \<not> is_completed ev"
  by (auto simp: tenantEvents_def split: option.splits)

lemma tenantEvents_no_failure: "ev \<in> set (tenantEvents m t) \<Longrightarrow> \<not> is_failure ev"
  by (auto simp: tenantEvents_def split: option.splits)

lemma failureEvents_no_completed: "ev \<in> set (failureEvents m t k e r) \<Longrightarrow> \<not> is_completed ev"
  by (auto simp: failureEvents_def rollbackEvents_def split: option.splits if_splits)

lemma migrationEvents_no_failure: "ev \<in> set (migrationEvents ts m) \<Longrightarrow> \<not> is_failure ev"
  by (auto simp: migrationEvents_def dest: tenantEvents_no_failure)

lemma rollbackEvents_no_failure: "ev \<in> set (rollbackEvents m t r) \<Longrightarrow> \<not> is_failure ev"
  by (auto simp: rollbackEvents_def split: option.splits)

lemma blocks_no_failure:
  "ev \<in> set (concat (map2 migrationEvents tss ms)) \<Longrightarrow> \<not> is_failure ev"
  by (auto dest: migrationEvents_no_failure)

lemma completed_split:
  assumes "concat (map2 migrationEvents tss ms) @ rest = pre @ c # post"
    and "length tss = length ms"
    and "is_completed c" and "\<forall>x\<in>set rest. \<not> is_completed x"
  shows "\<exists>i<length ms. c = CreateMigrationRecord (version (ms ! i)) \<and>
    pre = concat (map2 migrationEvents (take i tss) (take i ms)) @
      IterateTenants (tss ! i) # concat (map (tenantEvents (ms ! i)) (tss ! i)) \<and>
    post = concat (map2 migrationEvents (drop (Suc i) tss) (drop (Suc i) ms)) @ rest"
  using assms
proof (induction ms arbitrary: tss pre)
  case Nil
  then show ?case by (auto dest: split_none [where P = is_completed])
next
  case (Cons m ms)
  from Cons.prems(2) obtain ts tss' where tss: "tss = ts # tss'" "length tss' = length ms"
    by (cases tss) auto
  let ?body = "IterateTenants ts # concat (map (tenantEvents m) ts)"
  let ?more = "concat (map2 migrationEvents tss' ms) @ rest"
  have me: "migrationEvents ts m = ?body @ [CreateMigrationRecord (version m)]"
    by (simp add: migrationEvents_def)
  from Cons.prems(1) have eq: "?body @ CreateMigrationRecord (version m) # ?more = pre @ c # post"
    unfolding tss(1) by (simp add: me)
  have nb: "\<forall>x\<in>set ?body. \<not> is_completed x"
    by (auto dest: tenantEvents_no_completed)
  from split_at_first [OF eq nb Cons.prems(3)]
  show ?case
  proof
    assume "pre = ?body \<and> c = CreateMigrationRecord (version m) \<and> post = ?more"
    then have "0 < length (m # ms) \<and> c = CreateMigrationRecord (version ((m # ms) ! 0)) \<and>
      pre = concat (map2 migrationEvents (take 0 tss) (take 0 (m # ms))) @
        IterateTenants (tss ! 0) # concat (map (tenantEvents ((m # ms) ! 0)) (tss ! 0)) \<and>
      post = concat (map2 migrationEvents (drop (Suc 0) tss) (drop (Suc 0) (m # ms))) @ rest"
      unfolding tss(1) by simp
    then show ?thesis by (rule exI)
  next
    assume "\<exists>pre'. pre = ?body @ CreateMigrationRecord (version m) # pre' \<and> ?more = pre' @ c # post"
    then obtain pre' where pre': "pre = ?body @ CreateMigrationRecord (version m) # pre'"
      "?more = pre' @ c # post" by blast
    from Cons.IH [OF pre'(2) tss(2) Cons.prems(3,4)] obtain i where i: "i < length ms"
      "c = CreateMigrationRecord (version (ms ! i))"
      "pre' = concat (map2 migrationEvents (take i tss') (take i ms)) @
         IterateTenants (tss' ! i) # concat (map (tenantEvents (ms ! i)) (tss' ! i))"
      "post = concat (map2 migrationEvents (drop (Suc i) tss') (drop (Suc i) ms)) @ rest"
      by blast
    with pre'(1) have "Suc i < length (m # ms) \<and>
      c = CreateMigrationRecord (version ((m # ms) ! Suc i)) \<and>
      pre = concat (map2 migrationEvents (take (Suc i) tss) (take (Suc i) (m # ms))) @
        IterateTenants (tss ! Suc i) # concat (map (tenantEvents ((m # ms) ! Suc i)) (tss ! Suc i)) \<and>
      post = concat (map2 migrationEvents (drop (Suc (Suc i)) tss) (drop (Suc (Suc i)) (m # ms))) @ rest"
      unfolding tss(1) by (simp add: me)
    then show ?thesis by (rule exI)
  qed
qed

subsection \<open>Unfolding the examples\<close>

lemmas example_defs = fresh_def always_def growing_def Manager_new_def Array_sort_def byVersion_def
  unit_plain_def unit_full_def unit_up_fails_def unit_down_fails_def unit_test_fails_def
  bump_def revert_def check_def reject_def

lemmas run_defs = executePendingMigrations_def skipPendingMigrations_def currentMigration_def
  pending_def retrieveAllMigrationRecords_def mark_ran_def log_def append_records_def
  createMigrationRecord_def createFailedMigrationRecord_def createSkippedMigrationRecords_def
  runTenant_def rollback_def invoke_def iterateTenants_def failed_def

subsection \<open>The constructor\<close>

lemma insert_sorted_byVersion: "insert_sorted byVersion x ys = insort_key version x ys"
  by (induction ys) (simp_all add: byVersion_def)

lemma Array_sort_byVersion: "Array_sort byVersion xs = sort_key version xs"
  unfolding Array_sort_def sort_key_def
  by (induction xs) (simp_all add: insert_sorted_byVersion)

lemma Manager_new_simps [simp]:
  "migrations (Manager_new discovered tc) = sort_key version discovered"
  "tenants (Manager_new discovered tc) = tc"
  "ran (Manager_new discovered tc) = False"
  by (simp_all add: Manager_new_def Array_sort_byVersion)

subsection \<open>pending\<close>

lemma find_version_None:
  "find (\<lambda>r. v = version r) rs = None \<longleftrightarrow> v \<notin> version ` set rs"
  by (auto simp: find_None_iff)

lemma fst_pending_no_failed:
  assumes "\<forall>r\<in>set (records (mongo s)). \<not> failed r"
  shows "fst (pending s) =
    Inr (filter (\<lambda>m. version m \<notin> version ` set (records (mongo s))) (migrations (manager s)))"
proof -
  from assms have "find failed (records (mongo s)) = None"
    by (simp add: find_failed_None)
  then show ?thesis
    by (simp add: pending_def retrieveAllMigrationRecords_def find_version_None)
qed

text \<open>
  C1: when no stored record is failed, \<^verbatim>\<open>pending()\<close> returns the discovered migrations
  whose version matches no stored record: the versions returned are the discovered
  versions minus the recorded ones, and the result is a subsequence of the migration
  list, so it is ascending by version whenever that list is (the constructor sorts it).
\<close>

theorem pending_is_set_difference:
  assumes "\<forall>r\<in>set (records (mongo s)). \<not> failed r"
  shows "\<exists>ps. fst (pending s) = Inr ps \<and>
    ps = filter (\<lambda>m. version m \<notin> version ` set (records (mongo s))) (migrations (manager s)) \<and>
    version ` set ps = version ` set (migrations (manager s)) - version ` set (records (mongo s)) \<and>
    subseq ps (migrations (manager s)) \<and>
    (sorted (map version (migrations (manager s))) \<longrightarrow> sorted (map version ps))"
proof -
  let ?ps = "filter (\<lambda>m. version m \<notin> version ` set (records (mongo s))) (migrations (manager s))"
  have "fst (pending s) = Inr ?ps" using assms by (rule fst_pending_no_failed)
  moreover have "version ` set ?ps =
      version ` set (migrations (manager s)) - version ` set (records (mongo s))"
    by auto
  moreover have "subseq ?ps (migrations (manager s))" by simp
  moreover have "sorted (map version (migrations (manager s))) \<longrightarrow> sorted (map version ?ps)"
    by (simp add: sorted_filter)
  ultimately show ?thesis by blast
qed

theorem pending_is_set_difference_witness:
  "list_all (\<lambda>r. \<not> failed r)
     (records (mongo (fresh [unit_plain 3, unit_full 1, unit_plain 2] (always [''t1'']) [\<lparr>version = 1, status = Completed\<rparr>]))) \<and>
   (\<exists>ps. fst (pending (fresh [unit_plain 3, unit_full 1, unit_plain 2] (always [''t1''])
       [\<lparr>version = 1, status = Completed\<rparr>])) = Inr ps \<and> map version ps = [2, 3])"
  using pending_is_set_difference
    [of "fresh [unit_plain 3, unit_full 1, unit_plain 2] (always [''t1'']) [\<lparr>version = 1, status = Completed\<rparr>]"]
  by (simp add: example_defs failed_def)

subsection \<open>A failed record stops everything\<close>

lemma find_failed_Some:
  assumes "\<exists>r\<in>set rs. failed r"
  obtains r where "find failed rs = Some r" and "r \<in> set rs" and "failed r"
proof -
  from assms have "find failed rs \<noteq> None" by (simp add: find_failed_None)
  then obtain r where r: "find failed rs = Some r" by blast
  then have "r \<in> set rs" "failed r"
    by (auto simp: find_Some_iff)
  with r show ?thesis by (rule that)
qed

lemma fst_pending_failed:
  assumes "find failed (records (mongo s)) = Some r"
  shows "fst (pending s) = Inl (FailedMigrationDetectedError r)"
  using assms by (simp add: pending_def retrieveAllMigrationRecords_def)

lemma executePendingMigrations_ran:
  assumes "ran (manager s)"
  shows "executePendingMigrations s = (Inl AlreadyExecuted, s)"
  using assms by (simp add: executePendingMigrations_def)

lemma skipPendingMigrations_ran:
  assumes "ran (manager s)"
  shows "skipPendingMigrations s = (Inl AlreadyExecuted, s)"
  using assms by (simp add: skipPendingMigrations_def)

text \<open>
  C2: when some stored record is failed, \<^verbatim>\<open>pending()\<close> fails with
  \<^verbatim>\<open>FailedMigrationDetectedError\<close> carrying the first failed record of the store, and
  so does \<^verbatim>\<open>executePendingMigrations\<close> on a manager that has not run (one that has
  run fails earlier). Either way the call fails, the database is left as it was, and
  the call made at most the two reads of the record store: no hook was invoked.
\<close>

theorem failed_record_blocks_execution:
  assumes "\<exists>r\<in>set (records (mongo s)). failed r"
  shows "\<exists>r. r \<in> set (records (mongo s)) \<and> failed r \<and>
    find failed (records (mongo s)) = Some r \<and>
    fst (pending s) = Inl (FailedMigrationDetectedError r) \<and>
    fst (executePendingMigrations s) =
      Inl (if ran (manager s) then AlreadyExecuted else FailedMigrationDetectedError r) \<and>
    mongo (snd (executePendingMigrations s)) = mongo s \<and>
    trace (snd (executePendingMigrations s)) =
      trace s @ (if ran (manager s) then []
                 else [RetrieveAllMigrationRecords, RetrieveAllMigrationRecords]) \<and>
    list_all (\<lambda>ev. \<not> is_hook ev)
      (drop (length (trace s)) (trace (snd (executePendingMigrations s))))"
proof -
  from assms obtain r where r: "find failed (records (mongo s)) = Some r"
    "r \<in> set (records (mongo s))" "failed r"
    by (rule find_failed_Some)
  note p = fst_pending_failed [OF r(1)]
  have "fst (executePendingMigrations s) =
      Inl (if ran (manager s) then AlreadyExecuted else FailedMigrationDetectedError r) \<and>
    mongo (snd (executePendingMigrations s)) = mongo s \<and>
    trace (snd (executePendingMigrations s)) =
      trace s @ (if ran (manager s) then []
                 else [RetrieveAllMigrationRecords, RetrieveAllMigrationRecords])"
  proof (cases "ran (manager s)")
    case True
    then show ?thesis by (simp add: executePendingMigrations_ran)
  next
    case False
    then show ?thesis
      by (simp add: executePendingMigrations_pending_fails [OF False p])
  qed
  moreover from this have "list_all (\<lambda>ev. \<not> is_hook ev)
      (drop (length (trace s)) (trace (snd (executePendingMigrations s))))"
    by simp
  ultimately show ?thesis using r p by blast
qed

theorem failed_record_blocks_execution_witness:
  "list_ex failed [\<lparr>version = 1, status = Completed\<rparr>, \<lparr>version = 2, status = Failed\<rparr>] \<and>
   executePendingMigrations (fresh [unit_plain 1, unit_full 2, unit_plain 3] (always [''t1'', ''t2''])
       [\<lparr>version = 1, status = Completed\<rparr>, \<lparr>version = 2, status = Failed\<rparr>]) =
     (Inl (FailedMigrationDetectedError \<lparr>version = 2, status = Failed\<rparr>),
      (fresh [unit_plain 1, unit_full 2, unit_plain 3] (always [''t1'', ''t2''])
       [\<lparr>version = 1, status = Completed\<rparr>, \<lparr>version = 2, status = Failed\<rparr>])
      \<lparr>manager := Manager_new [unit_plain 1, unit_full 2, unit_plain 3] (always [''t1'', ''t2''])
                    \<lparr>ran := True\<rparr>,
       trace := [RetrieveAllMigrationRecords, RetrieveAllMigrationRecords]\<rparr>)"
  using failed_record_blocks_execution
    [of "fresh [unit_plain 1, unit_full 2, unit_plain 3] (always [''t1'', ''t2''])
       [\<lparr>version = 1, status = Completed\<rparr>, \<lparr>version = 2, status = Failed\<rparr>]"]
  by (simp add: example_defs run_defs)

subsection \<open>The one-shot flag\<close>

lemma ran_after_skipPendingMigrations: "ran (manager (snd (skipPendingMigrations s)))"
  by (simp add: skipPendingMigrations_def currentMigration_def retrieveAllMigrationRecords_def
      createSkippedMigrationRecords_def split: option.splits)

lemma ran_after_executePendingMigrations: "ran (manager (snd (executePendingMigrations s)))"
proof (cases "ran (manager s)")
  case True
  then show ?thesis by (simp add: executePendingMigrations_ran)
next
  case False
  show ?thesis
  proof (cases "fst (pending s)")
    case (Inl e)
    from executePendingMigrations_pending_fails [OF False Inl] show ?thesis by simp
  next
    case (Inr ps)
    from executePendingMigrations_effect(1) [OF False Inr, of "fst (executePendingMigrations s)"
        "snd (executePendingMigrations s)"]
    show ?thesis by (simp add: mark_ran_def)
  qed
qed

lemma calls_ran:
  assumes "ran (manager s)"
  shows "calls cs s = (replicate (length cs) (Inl AlreadyExecuted), s)"
proof (induction cs)
  case Nil
  show ?case by simp
next
  case (Cons c cs)
  from assms have "call c s = (Inl AlreadyExecuted, s)"
    by (cases c) (simp_all add: executePendingMigrations_ran skipPendingMigrations_ran)
  with Cons.IH show ?case by simp
qed

text \<open>
  C6: after one invocation of either entry point, whatever its outcome, a second
  invocation of either entry point fails with the already-executed error and returns
  the state it was given: the manager, the database and the trace (so no read or
  write of the record store and no hook invocation) are unchanged.
\<close>

theorem second_invocation_faults:
  "skipPendingMigrations (snd (call c s)) = (Inl AlreadyExecuted, snd (call c s)) \<and>
   executePendingMigrations (snd (call c s)) = (Inl AlreadyExecuted, snd (call c s))"
proof -
  have "ran (manager (snd (call c s)))"
    by (cases c) (simp_all add: ran_after_skipPendingMigrations ran_after_executePendingMigrations)
  then show ?thesis
    by (simp add: executePendingMigrations_ran skipPendingMigrations_ran)
qed

theorem second_invocation_faults_witness:
  "fst (call ExecutePending (fresh [unit_plain 1] (always [''t1'']) [])) = Inr () \<and>
   fst (skipPendingMigrations (snd (call ExecutePending (fresh [unit_plain 1] (always [''t1'']) [])))) =
     Inl AlreadyExecuted \<and>
   snd (executePendingMigrations (snd (call ExecutePending (fresh [unit_plain 1] (always [''t1'']) [])))) =
     snd (call ExecutePending (fresh [unit_plain 1] (always [''t1'']) []))"
  using second_invocation_faults [of ExecutePending "fresh [unit_plain 1] (always [''t1'']) []"]
  by (simp add: example_defs run_defs)

subsection \<open>skipPendingMigrations\<close>

lemma skipPendingMigrations_empty:
  assumes "\<not> ran (manager s)" and "records (mongo s) = []"
  shows "skipPendingMigrations s =
    (Inr (),
     createSkippedMigrationRecords (map version (migrations (manager s)))
       (log RetrieveAllMigrationRecords (mark_ran s)))"
  using assms
  by (simp add: skipPendingMigrations_def currentMigration_def retrieveAllMigrationRecords_def)

lemma skipPendingMigrations_nonempty:
  assumes "\<not> ran (manager s)" and "records (mongo s) \<noteq> []"
  shows "skipPendingMigrations s =
    (Inl IncompleteMigrations, log RetrieveAllMigrationRecords (mark_ran s))"
  using assms
  by (simp add: skipPendingMigrations_def currentMigration_def retrieveAllMigrationRecords_def)

text \<open>
  C7: on a manager that has not run, \<^verbatim>\<open>skipPendingMigrations\<close> against an empty
  record store succeeds after one read and one call of
  \<^verbatim>\<open>createSkippedMigrationRecords\<close> with the version of every discovered migration;
  the store then holds one skipped record per discovered migration, in the order of
  the migration list, and no hook was invoked. Against a store that is not empty it
  fails after the one read: the database is unchanged and nothing was written.
\<close>

theorem skip_marks_every_migration:
  assumes "\<not> ran (manager s)"
  shows "(records (mongo s) = [] \<longrightarrow>
      fst (skipPendingMigrations s) = Inr () \<and>
      trace (snd (skipPendingMigrations s)) =
        trace s @ [RetrieveAllMigrationRecords,
                   CreateSkippedMigrationRecords (map version (migrations (manager s)))] \<and>
      records (mongo (snd (skipPendingMigrations s))) =
        map (\<lambda>m. \<lparr>version = version m, status = Skipped\<rparr>) (migrations (manager s)) \<and>
      data (mongo (snd (skipPendingMigrations s))) = data (mongo s)) \<and>
    (records (mongo s) \<noteq> [] \<longrightarrow>
      fst (skipPendingMigrations s) = Inl IncompleteMigrations \<and>
      trace (snd (skipPendingMigrations s)) = trace s @ [RetrieveAllMigrationRecords] \<and>
      mongo (snd (skipPendingMigrations s)) = mongo s) \<and>
    list_all (\<lambda>ev. \<not> is_hook ev)
      (drop (length (trace s)) (trace (snd (skipPendingMigrations s))))"
proof (cases "records (mongo s) = []")
  case True
  from skipPendingMigrations_empty [OF assms True] True show ?thesis
    by (simp add: createSkippedMigrationRecords_def comp_def)
next
  case False
  from skipPendingMigrations_nonempty [OF assms False] False show ?thesis
    by simp
qed

theorem skip_marks_every_migration_witness:
  "\<not> ran (manager (fresh [unit_plain 3, unit_full 1, unit_plain 2] (always [''t1'', ''t2'']) [])) \<and>
   skipPendingMigrations (fresh [unit_plain 3, unit_full 1, unit_plain 2] (always [''t1'', ''t2'']) []) =
     (Inr (),
      (fresh [unit_plain 3, unit_full 1, unit_plain 2] (always [''t1'', ''t2''])
         [\<lparr>version = 1, status = Skipped\<rparr>, \<lparr>version = 2, status = Skipped\<rparr>,
          \<lparr>version = 3, status = Skipped\<rparr>])
      \<lparr>manager := Manager_new [unit_plain 3, unit_full 1, unit_plain 2] (always [''t1'', ''t2''])
                    \<lparr>ran := True\<rparr>,
       trace := [RetrieveAllMigrationRecords, CreateSkippedMigrationRecords [1, 2, 3]]\<rparr>)"
  using skip_marks_every_migration
    [of "fresh [unit_plain 3, unit_full 1, unit_plain 2] (always [''t1'', ''t2'']) []"]
  by (simp add: example_defs run_defs)

text \<open>
  C10: \<^verbatim>\<open>skipPendingMigrations\<close> sets \<^verbatim>\<open>ran\<close> before it looks at the record store.
  On a manager that has not run and a store that is not empty it fails with the
  incomplete-migrations error, having changed nothing but the flag (and made its one
  read); from the state it leaves, every later sequence of calls to the two entry
  points fails call by call with the already-executed error and changes nothing.
\<close>

theorem failed_skip_consumes_the_instance:
  assumes "\<not> ran (manager s)" and "records (mongo s) \<noteq> []"
  shows "skipPendingMigrations s =
      (Inl IncompleteMigrations,
       s\<lparr>manager := (manager s)\<lparr>ran := True\<rparr>,
         trace := trace s @ [RetrieveAllMigrationRecords]\<rparr>) \<and>
    calls cs (snd (skipPendingMigrations s)) =
      (replicate (length cs) (Inl AlreadyExecuted), snd (skipPendingMigrations s))"
proof -
  have "skipPendingMigrations s =
      (Inl IncompleteMigrations,
       s\<lparr>manager := (manager s)\<lparr>ran := True\<rparr>,
         trace := trace s @ [RetrieveAllMigrationRecords]\<rparr>)"
    by (simp add: skipPendingMigrations_nonempty [OF assms] mark_ran_def log_def)
  moreover have "ran (manager (snd (skipPendingMigrations s)))"
    by (rule ran_after_skipPendingMigrations)
  ultimately show ?thesis by (simp add: calls_ran)
qed

theorem failed_skip_consumes_the_instance_witness:
  "\<not> ran (manager (fresh [unit_plain 1, unit_plain 2] (always [''t1'']) [\<lparr>version = 1, status = Completed\<rparr>])) \<and>
   records (mongo (fresh [unit_plain 1, unit_plain 2] (always [''t1'']) [\<lparr>version = 1, status = Completed\<rparr>])) \<noteq> [] \<and>
   fst (skipPendingMigrations
     (fresh [unit_plain 1, unit_plain 2] (always [''t1'']) [\<lparr>version = 1, status = Completed\<rparr>])) =
     Inl IncompleteMigrations \<and>
   fst (calls [ExecutePending, SkipPending, ExecutePending]
     (snd (skipPendingMigrations
       (fresh [unit_plain 1, unit_plain 2] (always [''t1'']) [\<lparr>version = 1, status = Completed\<rparr>])))) =
     [Inl AlreadyExecuted, Inl AlreadyExecuted, Inl AlreadyExecuted]"
proof -
  let ?s = "fresh [unit_plain 1, unit_plain 2] (always [''t1'']) [\<lparr>version = 1, status = Completed\<rparr>]"
  let ?cs = "[ExecutePending, SkipPending, ExecutePending]"
  have h1: "\<not> ran (manager ?s)" by (simp add: fresh_def Manager_new_def)
  have h2: "records (mongo ?s) \<noteq> []" by (simp add: fresh_def)
  note t = failed_skip_consumes_the_instance [OF h1 h2, of ?cs]
  from t have a: "skipPendingMigrations ?s =
      (Inl IncompleteMigrations,
       ?s\<lparr>manager := (manager ?s)\<lparr>ran := True\<rparr>,
         trace := trace ?s @ [RetrieveAllMigrationRecords]\<rparr>)"
    by (rule conjunct1)
  from t have b: "calls ?cs (snd (skipPendingMigrations ?s)) =
      (replicate (length ?cs) (Inl AlreadyExecuted), snd (skipPendingMigrations ?s))"
    by (rule conjunct2)
  have "fst (skipPendingMigrations ?s) = Inl IncompleteMigrations"
    unfolding a by simp
  moreover have "fst (calls ?cs (snd (skipPendingMigrations ?s))) =
      [Inl AlreadyExecuted, Inl AlreadyExecuted, Inl AlreadyExecuted]"
    unfolding b by simp
  ultimately show ?thesis using h1 h2 by blast
qed

subsection \<open>No tenants\<close>

lemma forMigrations_no_tenants:
  assumes "\<forall>db. tenants (manager s) db = []"
  shows "\<exists>s'. forMigrations ms s = (Inr (), s') \<and> manager s' = manager s \<and>
    trace s' = trace s @
      concat (map (\<lambda>m. [IterateTenants [], CreateMigrationRecord (version m)]) ms) \<and>
    records (mongo s') =
      records (mongo s) @ map (\<lambda>m. \<lparr>version = version m, status = Completed\<rparr>) ms \<and>
    data (mongo s') = data (mongo s)"
  using assms
proof (induction ms arbitrary: s)
  case Nil
  then show ?case by simp
next
  case (Cons m ms)
  let ?s1 = "createMigrationRecord (version m) (log (IterateTenants []) s)"
  have s1: "\<forall>db. tenants (manager ?s1) db = []" "manager ?s1 = manager s"
    "trace ?s1 = trace s @ [IterateTenants [], CreateMigrationRecord (version m)]"
    "records (mongo ?s1) = records (mongo s) @ [\<lparr>version = version m, status = Completed\<rparr>]"
    "data (mongo ?s1) = data (mongo s)"
    using Cons.prems by (simp_all add: createMigrationRecord_def)
  from Cons.IH [OF s1(1)] obtain s' where s': "forMigrations ms ?s1 = (Inr (), s')"
    "manager s' = manager ?s1"
    "trace s' = trace ?s1 @
      concat (map (\<lambda>m. [IterateTenants [], CreateMigrationRecord (version m)]) ms)"
    "records (mongo s') =
      records (mongo ?s1) @ map (\<lambda>m. \<lparr>version = version m, status = Completed\<rparr>) ms"
    "data (mongo s') = data (mongo ?s1)"
    by blast
  have "forMigrations (m # ms) s = (Inr (), s')"
    using Cons.prems s'(1) by (simp add: iterateTenants_def)
  with s' s1 show ?case by simp
qed

text \<open>
  C9: when the tenant source yields no tenant, whatever the database,
  \<^verbatim>\<open>executePendingMigrations\<close> on a manager that has not run, with \<open>ps\<close> the pending
  migrations, succeeds; it appends a completed record for every pending migration, in
  order, to the store, leaves the rest of the database alone, and makes no call but
  reads and writes of the record store and the (empty) iterations of the tenant source.
\<close>

theorem no_tenants_completes_everything:
  assumes "\<forall>db. tenants (manager s) db = []" and "\<not> ran (manager s)"
    and "fst (pending s) = Inr ps"
  shows "fst (executePendingMigrations s) = Inr () \<and>
    records (mongo (snd (executePendingMigrations s))) =
      records (mongo s) @ map (\<lambda>m. \<lparr>version = version m, status = Completed\<rparr>) ps \<and>
    data (mongo (snd (executePendingMigrations s))) = data (mongo s) \<and>
    trace (snd (executePendingMigrations s)) =
      trace s @ [RetrieveAllMigrationRecords, RetrieveAllMigrationRecords] @
        concat (map (\<lambda>m. [IterateTenants [], CreateMigrationRecord (version m)]) ps) @
        (if ps = [] then [] else [RetrieveAllMigrationRecords]) \<and>
    list_all (\<lambda>ev. \<not> is_hook ev)
      (drop (length (trace s)) (trace (snd (executePendingMigrations s))))"
proof -
  let ?R = "RetrieveAllMigrationRecords :: 'b event"
  let ?s2 = "log ?R (log ?R (mark_ran s))"
  have nt: "\<forall>db. tenants (manager ?s2) db = []" using assms(1) by simp
  from forMigrations_no_tenants [OF nt, of ps] obtain s3 where
    s3: "forMigrations ps ?s2 = (Inr (), s3)"
    "trace s3 = trace ?s2 @
      concat (map (\<lambda>m. [IterateTenants [], CreateMigrationRecord (version m)]) ps)"
    "records (mongo s3) =
      records (mongo ?s2) @ map (\<lambda>m. \<lparr>version = version m, status = Completed\<rparr>) ps"
    "data (mongo s3) = data (mongo ?s2)"
    by blast
  have run: "executePendingMigrations s =
    (Inr (), if ps = [] then ?s2 else log ?R s3)"
    using assms(2,3) s3(1) by (simp add: executePendingMigrations_unfold)
  have tr: "trace (snd (executePendingMigrations s)) =
      trace s @ [?R, ?R] @
        concat (map (\<lambda>m. [IterateTenants [], CreateMigrationRecord (version m)]) ps) @
        (if ps = [] then [] else [?R])"
    using run s3(2) by simp
  have "list_all (\<lambda>ev. \<not> is_hook ev)
      (drop (length (trace s)) (trace (snd (executePendingMigrations s))))"
    unfolding tr by (auto simp: list_all_iff)
  moreover have "records (mongo (snd (executePendingMigrations s))) =
      records (mongo s) @ map (\<lambda>m. \<lparr>version = version m, status = Completed\<rparr>) ps"
    using run s3(3) by simp
  moreover have "data (mongo (snd (executePendingMigrations s))) = data (mongo s)"
    using run s3(4) by simp
  ultimately show ?thesis using run tr by simp
qed

theorem no_tenants_completes_everything_witness:
  "(\<forall>db. tenants (manager (fresh [unit_plain 3, unit_up_fails 2, unit_full 1] (always [])
      [\<lparr>version = 1, status = Completed\<rparr>])) db = []) \<and>
   \<not> ran (manager (fresh [unit_plain 3, unit_up_fails 2, unit_full 1] (always [])
      [\<lparr>version = 1, status = Completed\<rparr>])) \<and>
   fst (pending (fresh [unit_plain 3, unit_up_fails 2, unit_full 1] (always [])
      [\<lparr>version = 1, status = Completed\<rparr>])) = Inr [unit_up_fails 2, unit_plain 3] \<and>
   fst (executePendingMigrations (fresh [unit_plain 3, unit_up_fails 2, unit_full 1] (always [])
      [\<lparr>version = 1, status = Completed\<rparr>])) = Inr () \<and>
   records (mongo (snd (executePendingMigrations (fresh [unit_plain 3, unit_up_fails 2, unit_full 1]
      (always []) [\<lparr>version = 1, status = Completed\<rparr>])))) =
     [\<lparr>version = 1, status = Completed\<rparr>, \<lparr>version = 2, status = Completed\<rparr>,
      \<lparr>version = 3, status = Completed\<rparr>]"
proof -
  let ?s = "fresh [unit_plain 3, unit_up_fails 2, unit_full 1] (always [])
      [\<lparr>version = 1, status = Completed\<rparr>]"
  have h1: "\<forall>db. tenants (manager ?s) db = []"
    by (simp add: fresh_def Manager_new_def always_def)
  have h2: "\<not> ran (manager ?s)" by (simp add: fresh_def Manager_new_def)
  have h3: "fst (pending ?s) = Inr [unit_up_fails 2, unit_plain 3]"
    by (simp add: example_defs run_defs)
  from no_tenants_completes_everything [OF h1 h2 h3] h1 h2 h3 show ?thesis
    by (simp add: unit_up_fails_def unit_plain_def fresh_def)
qed

subsection \<open>The order of the migration list\<close>

text \<open>
  C8: the migration list that the constructor builds is ascending by version (any two
  positions are in order), it holds the discovered units with their multiplicities (a
  duplicate version is kept), and the comparator answers zero exactly for equal
  versions, a negative number exactly for a smaller one and a positive number exactly
  for a greater one.
\<close>

theorem constructor_sorts_by_version:
  "sorted (map version (migrations (Manager_new discovered tenantCache))) \<and>
   (\<forall>i j. i \<le> j \<and> j < length (migrations (Manager_new discovered tenantCache)) \<longrightarrow>
      version (migrations (Manager_new discovered tenantCache) ! i)
        \<le> version (migrations (Manager_new discovered tenantCache) ! j)) \<and>
   mset (migrations (Manager_new discovered tenantCache)) = mset discovered \<and>
   length (migrations (Manager_new discovered tenantCache)) = length discovered \<and>
   (byVersion a b = 0 \<longleftrightarrow> version a = version b) \<and>
   (byVersion a b < 0 \<longleftrightarrow> version a < version b) \<and>
   (byVersion a b > 0 \<longleftrightarrow> version a > version b)"
proof -
  let ?ms = "migrations (Manager_new discovered tenantCache)"
  have srt: "sorted (map version ?ms)" by simp
  have "\<forall>i j. i \<le> j \<and> j < length ?ms \<longrightarrow> version (?ms ! i) \<le> version (?ms ! j)"
  proof (intro allI impI)
    fix i j assume ij: "i \<le> j \<and> j < length ?ms"
    then have "map version ?ms ! i \<le> map version ?ms ! j"
      using srt by (intro sorted_nth_mono) simp_all
    with ij show "version (?ms ! i) \<le> version (?ms ! j)" by simp
  qed
  moreover have "mset ?ms = mset discovered" "length ?ms = length discovered" by simp_all
  moreover have "(byVersion a b = 0 \<longleftrightarrow> version a = version b) \<and>
   (byVersion a b < 0 \<longleftrightarrow> version a < version b) \<and>
   (byVersion a b > 0 \<longleftrightarrow> version a > version b)"
    by (simp add: byVersion_def)
  ultimately show ?thesis using srt by blast
qed

theorem constructor_sorts_by_version_witness:
  "map version (migrations (Manager_new [unit_plain 3, unit_full 1, unit_up_fails 3, unit_plain 2] (always [''t1'']))) =
     [1, 2, 3, 3] \<and>
   map name (migrations (Manager_new [unit_plain 3, unit_full 1, unit_up_fails 3, unit_plain 2] (always [''t1'']))) =
     [''full'', ''plain'', ''plain'', ''up_fails''] \<and>
   byVersion (unit_plain 3) (unit_up_fails 3) = 0"
  using constructor_sorts_by_version
    [of "[unit_plain 3, unit_full 1, unit_up_fails 3, unit_plain 2]" "always [''t1'']"
      "unit_plain 3" "unit_up_fails 3"]
  by (simp add: example_defs)

subsection \<open>The shape of a run\<close>

lemma abortedE:
  assumes "aborted m t pre s' res"
  obtains k e r where "k \<noteq> Down" and "down m = None \<longrightarrow> r = None"
    and "trace s' = pre @ failureEvents m t k e r"
    and "res = Inl (Thrown (case r of None \<Rightarrow> e | Some e' \<Rightarrow> e'))"
    and "r = None \<longrightarrow> records (mongo s') \<noteq> [] \<and>
           last (records (mongo s')) = \<lparr>version = version m, status = Failed\<rparr>"
  using assms unfolding aborted_def
  by (elim exE conjE) (rule that, assumption+)

lemma executePendingMigrations_trace:
  assumes nr: "\<not> ran (manager s)" and pd: "fst (pending s) = Inr ps"
    and run: "executePendingMigrations s = (res, s')"
  obtains k tss rest where "k \<le> length ps" and "length tss = k"
    and "trace s' = trace s @ [RetrieveAllMigrationRecords, RetrieveAllMigrationRecords] @
        concat (map2 migrationEvents tss (take k ps)) @ rest"
    and "\<forall>ev\<in>set rest. \<not> is_completed ev"
proof (cases "res = Inr ()")
  case True
  let ?rest = "if ps = [] then [] else [RetrieveAllMigrationRecords :: 'b event]"
  from executePendingMigrations_effect(2) [OF nr pd run True]
  obtain tss where tss: "length tss = length ps"
    "trace s' = trace s @ [RetrieveAllMigrationRecords, RetrieveAllMigrationRecords] @
        concat (map2 migrationEvents tss ps) @ ?rest"
    by blast
  from tss(2) have "trace s' = trace s @ [RetrieveAllMigrationRecords, RetrieveAllMigrationRecords] @
        concat (map2 migrationEvents tss (take (length ps) ps)) @ ?rest"
    by simp
  moreover have "\<forall>ev\<in>set ?rest. \<not> is_completed ev" by simp
  ultimately show ?thesis using that [of "length ps" tss ?rest] tss(1) by blast
next
  case False
  from executePendingMigrations_effect(3) [OF nr pd run False]
  obtain i tss ts j where ij: "i < length ps" "length tss = i" "j < length ts"
    "aborted (ps ! i) (ts ! j)
        (trace s @ [RetrieveAllMigrationRecords, RetrieveAllMigrationRecords] @
           concat (map2 migrationEvents tss (take i ps)) @
           IterateTenants ts # concat (map (tenantEvents (ps ! i)) (take j ts))) s' res"
    by blast
  from ij(4) obtain k e r where tr: "trace s' =
      (trace s @ [RetrieveAllMigrationRecords, RetrieveAllMigrationRecords] @
           concat (map2 migrationEvents tss (take i ps)) @
           IterateTenants ts # concat (map (tenantEvents (ps ! i)) (take j ts))) @
      failureEvents (ps ! i) (ts ! j) k e r"
    by (rule abortedE)
  let ?rest = "IterateTenants ts # concat (map (tenantEvents (ps ! i)) (take j ts)) @
    failureEvents (ps ! i) (ts ! j) k e r"
  have "\<forall>ev\<in>set ?rest. \<not> is_completed ev"
    by (auto dest: tenantEvents_no_completed failureEvents_no_completed)
  moreover have "trace s' = trace s @ [RetrieveAllMigrationRecords, RetrieveAllMigrationRecords] @
        concat (map2 migrationEvents tss (take i ps)) @ ?rest"
    using tr by simp
  moreover have "i \<le> length ps" using ij(1) by simp
  ultimately show ?thesis using that [of i tss ?rest] ij(2) by blast
qed

lemma strip_reads:
  assumes "[a, b] @ xs = pre @ c # post" and "c \<noteq> a" and "c \<noteq> b"
  obtains pre' where "pre = [a, b] @ pre'" and "xs = pre' @ c # post"
proof (cases pre)
  case Nil
  with assms show ?thesis by simp
next
  case (Cons p pre1)
  note c1 = this
  show ?thesis
  proof (cases pre1)
    case Nil
    with c1 assms show ?thesis by simp
  next
    case (Cons q pre2)
    with c1 assms have "pre = [a, b] @ pre2" "xs = pre2 @ c # post" by simp_all
    then show ?thesis by (rule that)
  qed
qed

lemma pending_Manager_new_sorted:
  assumes "migrations (manager s) = sort_key version discovered" and "fst (pending s) = Inr ps"
  shows "sorted (map version ps)"
    and "distinct (map version discovered) \<Longrightarrow> sorted_wrt (<) (map version ps)"
proof -
  from assms(2) obtain P where ps: "ps = filter P (migrations (manager s))"
    by (auto simp: pending_def retrieveAllMigrationRecords_def split: option.splits)
  show "sorted (map version ps)"
    unfolding ps assms(1) by (simp add: sorted_filter)
  assume "distinct (map version discovered)"
  then have "distinct (map version (sort_key version discovered))"
    by (metis distinct_map distinct_sort set_sort)
  then have "distinct (map version ps)"
    unfolding ps assms(1) by (rule distinct_map_filter)
  with \<open>sorted (map version ps)\<close> show "sorted_wrt (<) (map version ps)"
    by (simp add: strict_sorted_iff)
qed

lemma tenantEvents_version:
  assumes "Invoke k w t' r \<in> set (tenantEvents m t)"
  shows "w = version m"
  using assms by (auto simp: tenantEvents_def split: option.splits)

lemma migrationEvents_version:
  assumes "Invoke k w t' r \<in> set (migrationEvents ts m)"
  shows "w = version m"
  using assms by (auto simp: migrationEvents_def dest: tenantEvents_version)

lemma blocks_version:
  assumes "Invoke k w t r \<in> set (concat (map2 migrationEvents tss ms))"
  obtains m where "m \<in> set ms" and "w = version m"
proof -
  from assms obtain ts m where "(ts, m) \<in> set (zip tss ms)"
    "Invoke k w t r \<in> set (migrationEvents ts m)"
    by auto
  then have "m \<in> set ms" "w = version m"
    by (auto dest: set_zip_rightD migrationEvents_version)
  then show ?thesis by (rule that)
qed

text \<open>
  C3, amended: take a run of \<^verbatim>\<open>executePendingMigrations\<close> on a freshly constructed
  manager and any completed record that the run writes. Then the pending migrations
  \<open>ps\<close> are ascending by version: never a greater version before a smaller one, and
  strictly ascending when the discovered versions are distinct. The record is the one
  of some pending migration \<open>ps ! i\<close>, and everything the run did before writing it is:
  the two reads; then for each of the pending migrations before \<open>ps ! i\<close>, in order, an
  iteration of the tenant source, the successful hooks of every tenant it yielded and
  the completed record; then the iteration of the tenant source for \<open>ps ! i\<close>, yielding
  \<open>ts\<close>, and the successful hooks (\<^verbatim>\<open>up\<close>, and \<^verbatim>\<open>test\<close> if present) of every tenant of
  \<open>ts\<close>. In particular every tenant that the source yielded for the migration has
  succeeded before its record is written, and no hook of a later pending migration has
  been invoked by then.
\<close>

theorem completed_record_order:
  assumes "manager s = Manager_new discovered tenantCache"
    and "executePendingMigrations s = (res, s')"
    and "trace s' = trace s @ pre @ CreateMigrationRecord v # post"
  shows "\<exists>ps tss ts i. fst (pending s) = Inr ps \<and> sorted (map version ps) \<and>
    (distinct (map version discovered) \<longrightarrow> sorted_wrt (<) (map version ps)) \<and>
    i < length ps \<and> length tss = i \<and> v = version (ps ! i) \<and>
    pre = [RetrieveAllMigrationRecords, RetrieveAllMigrationRecords] @
      concat (map2 migrationEvents tss (take i ps)) @
      IterateTenants ts # concat (map (tenantEvents (ps ! i)) ts) \<and>
    (\<forall>t\<in>set ts. Invoke Up v t None \<in> set pre \<and>
       (test (ps ! i) \<noteq> None \<longrightarrow> Invoke Test v t None \<in> set pre)) \<and>
    (\<forall>k w t r. Invoke k w t r \<in> set pre \<longrightarrow> (\<exists>j\<le>i. w = version (ps ! j)))"
proof -
  let ?R = "RetrieveAllMigrationRecords :: 'b event"
  let ?c = "CreateMigrationRecord v :: 'b event"
  have nr: "\<not> ran (manager s)"
    and ms: "migrations (manager s) = sort_key version discovered"
    using assms(1) by simp_all
  show ?thesis
  proof (cases "fst (pending s)")
    case (Inl e)
    from executePendingMigrations_pending_fails [OF nr Inl] assms(2)
    have "trace s' = trace s @ [?R, ?R]" by simp
    with assms(3) have "[?R, ?R] = pre @ ?c # post" by simp
    from split_none [OF this, of is_completed] show ?thesis by simp
  next
    case (Inr ps)
    from nr Inr assms(2) obtain k tss0 rest where k: "k \<le> length ps" "length tss0 = k"
      "trace s' = trace s @ [?R, ?R] @ concat (map2 migrationEvents tss0 (take k ps)) @ rest"
      "\<forall>ev\<in>set rest. \<not> is_completed ev"
      by (rule executePendingMigrations_trace)
    from k(3) assms(3)
    have "[?R, ?R] @ (concat (map2 migrationEvents tss0 (take k ps)) @ rest) = pre @ ?c # post"
      by simp
    then obtain pre' where pre': "pre = [?R, ?R] @ pre'"
      "concat (map2 migrationEvents tss0 (take k ps)) @ rest = pre' @ ?c # post"
      by (rule strip_reads) simp_all
    have len: "length tss0 = length (take k ps)" using k(1,2) by simp
    from completed_split [OF pre'(2) len _ k(4)] obtain i where i: "i < length (take k ps)"
      "?c = CreateMigrationRecord (version (take k ps ! i))"
      "pre' = concat (map2 migrationEvents (take i tss0) (take i (take k ps))) @
         IterateTenants (tss0 ! i) # concat (map (tenantEvents (take k ps ! i)) (tss0 ! i))"
      by auto
    from i(1) k(1) have ik: "i < k" "i < length ps" by simp_all
    then have tk: "take k ps ! i = ps ! i" "take i (take k ps) = take i ps"
      by (simp_all add: min_def)
    define tss where "tss = take i tss0"
    define ts where "ts = tss0 ! i"
    have ltss: "length tss = i" using ik(1) k(2) by (simp add: tss_def)
    from i(2) tk have v: "v = version (ps ! i)" by simp
    from pre'(1) i(3) tk have pre: "pre = [?R, ?R] @
      concat (map2 migrationEvents tss (take i ps)) @
      IterateTenants ts # concat (map (tenantEvents (ps ! i)) ts)"
      by (simp add: tss_def ts_def)
    have hooks: "\<forall>t\<in>set ts. Invoke Up v t None \<in> set pre \<and>
       (test (ps ! i) \<noteq> None \<longrightarrow> Invoke Test v t None \<in> set pre)"
    proof
      fix t assume t: "t \<in> set ts"
      have "Invoke Up v t None \<in> set (tenantEvents (ps ! i) t)"
        "test (ps ! i) \<noteq> None \<longrightarrow> Invoke Test v t None \<in> set (tenantEvents (ps ! i) t)"
        by (auto simp: tenantEvents_def v)
      with t have "Invoke Up v t None \<in> set (concat (map (tenantEvents (ps ! i)) ts))"
        "test (ps ! i) \<noteq> None \<longrightarrow>
           Invoke Test v t None \<in> set (concat (map (tenantEvents (ps ! i)) ts))"
        by auto
      then show "Invoke Up v t None \<in> set pre \<and>
       (test (ps ! i) \<noteq> None \<longrightarrow> Invoke Test v t None \<in> set pre)"
        unfolding pre by simp
    qed
    have earlier: "\<forall>k w t r. Invoke k w t r \<in> set pre \<longrightarrow> (\<exists>j\<le>i. w = version (ps ! j))"
    proof (intro allI impI)
      fix k w t r assume "Invoke k w t r \<in> set pre"
      then consider "Invoke k w t r \<in> set (concat (map2 migrationEvents tss (take i ps)))"
        | t' where "Invoke k w t r \<in> set (tenantEvents (ps ! i) t')"
        unfolding pre by auto
      then show "\<exists>j\<le>i. w = version (ps ! j)"
      proof cases
        case 1
        then obtain m where m: "m \<in> set (take i ps)" "w = version m"
          by (rule blocks_version)
        from m(1) obtain j where "j < length (take i ps)" "take i ps ! j = m"
          by (auto simp: in_set_conv_nth)
        with ik have "j \<le> i" "m = ps ! j" by simp_all
        with m(2) show ?thesis by blast
      next
        case 2
        from tenantEvents_version [OF 2] show ?thesis by blast
      qed
    qed
    from Inr ms have srt: "sorted (map version ps)"
      "distinct (map version discovered) \<longrightarrow> sorted_wrt (<) (map version ps)"
      by (simp_all add: pending_Manager_new_sorted)
    from Inr srt ik(2) ltss v pre hooks earlier show ?thesis by blast
  qed
qed

text \<open>
  A witness with a tenant source that changes between migrations: \<open>growing\<close> yields
  \<open>t1\<close> for migration 1 and, once the record of migration 1 is in the store, \<open>t1\<close> and
  \<open>t2\<close> for migration 2.
\<close>

theorem completed_record_order_witness:
  "manager (fresh [unit_plain 2, unit_full 1] growing []) =
     Manager_new [unit_plain 2, unit_full 1] growing \<and>
   fst (executePendingMigrations (fresh [unit_plain 2, unit_full 1] growing [])) = Inr () \<and>
   trace (snd (executePendingMigrations (fresh [unit_plain 2, unit_full 1] growing []))) =
     trace (fresh [unit_plain 2, unit_full 1] growing []) @
     [RetrieveAllMigrationRecords, RetrieveAllMigrationRecords,
      IterateTenants [''t1''], Invoke Up 1 ''t1'' None, Invoke Test 1 ''t1'' None,
      CreateMigrationRecord 1,
      IterateTenants [''t1'', ''t2''], Invoke Up 2 ''t1'' None, Invoke Up 2 ''t2'' None] @
     CreateMigrationRecord 2 # [RetrieveAllMigrationRecords] \<and>
   (\<exists>ps tss ts i. fst (pending (fresh [unit_plain 2, unit_full 1] growing [])) = Inr ps \<and>
      sorted_wrt (<) (map version ps) \<and> i < length ps \<and> length tss = i \<and>
      2 = version (ps ! i) \<and>
      [RetrieveAllMigrationRecords, RetrieveAllMigrationRecords,
       IterateTenants [''t1''], Invoke Up 1 ''t1'' None, Invoke Test 1 ''t1'' None,
       CreateMigrationRecord 1,
       IterateTenants [''t1'', ''t2''], Invoke Up 2 ''t1'' None, Invoke Up 2 ''t2'' None] =
      [RetrieveAllMigrationRecords, RetrieveAllMigrationRecords] @
      concat (map2 migrationEvents tss (take i ps)) @
      IterateTenants ts # concat (map (tenantEvents (ps ! i)) ts))"
proof -
  let ?d = "[unit_plain 2, unit_full 1]"
  let ?s = "fresh ?d growing []"
  let ?pre = "[RetrieveAllMigrationRecords, RetrieveAllMigrationRecords,
      IterateTenants [''t1''], Invoke Up 1 ''t1'' None, Invoke Test 1 ''t1'' None,
      CreateMigrationRecord 1,
      IterateTenants [''t1'', ''t2''], Invoke Up 2 ''t1'' None, Invoke Up 2 ''t2'' None]
      :: string event list"
  let ?post = "[RetrieveAllMigrationRecords] :: string event list"
  have h1: "manager ?s = Manager_new ?d growing" by (simp add: fresh_def)
  have run: "executePendingMigrations ?s =
    (fst (executePendingMigrations ?s), snd (executePendingMigrations ?s))"
    by simp
  have ok: "fst (executePendingMigrations ?s) = Inr ()"
    by (simp add: example_defs run_defs)
  have h3: "trace (snd (executePendingMigrations ?s)) =
    trace ?s @ ?pre @ CreateMigrationRecord 2 # ?post"
    by (simp add: example_defs run_defs)
  have d: "distinct (map version ?d)" by (simp add: example_defs)
  from completed_record_order [OF h1 run h3] d
  have c: "\<exists>ps tss ts i. fst (pending ?s) = Inr ps \<and>
      sorted_wrt (<) (map version ps) \<and> i < length ps \<and> length tss = i \<and>
      2 = version (ps ! i) \<and>
      ?pre = [RetrieveAllMigrationRecords, RetrieveAllMigrationRecords] @
      concat (map2 migrationEvents tss (take i ps)) @
      IterateTenants ts # concat (map (tenantEvents (ps ! i)) ts)"
    by blast
  show ?thesis by (intro conjI h1 ok h3 c)
qed

text \<open>
  Strictly ascending order fails when two discovered units have the same version, which
  the constructor keeps. Both are pending, and both run, one after the other: the
  versions executed are 3 and 3.
\<close>

theorem equal_versions_run_in_sequence:
  "fst (pending (fresh [unit_plain 3, unit_full 3] (always [''t1'']) [])) =
     Inr [unit_plain 3, unit_full 3] \<and>
   map version [unit_plain 3, unit_full 3] = [3, 3] \<and>
   \<not> sorted_wrt (<) (map version [unit_plain 3, unit_full 3]) \<and>
   fst (executePendingMigrations (fresh [unit_plain 3, unit_full 3] (always [''t1'']) [])) =
     Inr () \<and>
   trace (snd (executePendingMigrations (fresh [unit_plain 3, unit_full 3] (always [''t1'']) []))) =
     [RetrieveAllMigrationRecords, RetrieveAllMigrationRecords,
      IterateTenants [''t1''], Invoke Up 3 ''t1'' None, CreateMigrationRecord 3,
      IterateTenants [''t1''], Invoke Up 3 ''t1'' None, Invoke Test 3 ''t1'' None,
      CreateMigrationRecord 3, RetrieveAllMigrationRecords]"
  by (simp add: example_defs run_defs)

subsection \<open>A failing hook\<close>

lemma failure_run:
  fixes s :: "('d, 'e) state"
  assumes run: "executePendingMigrations s = (res, s')"
    and split: "trace s' = trace s @ pre @ Invoke k v t (Some e) # post"
    and k: "k \<noteq> Down"
  obtains ps tss ts i j r where "\<not> ran (manager s)" and "fst (pending s) = Inr ps"
    and "i < length ps" and "length tss = i" and "j < length ts"
    and "v = version (ps ! i)" and "t = ts ! j"
    and "pre = [RetrieveAllMigrationRecords, RetrieveAllMigrationRecords] @
      concat (map2 migrationEvents tss (take i ps)) @
      IterateTenants ts # concat (map (tenantEvents (ps ! i)) (take j ts)) @
      (if k = Test then [Invoke Up v t None] else [])"
    and "post = rollbackEvents (ps ! i) t r"
    and "down (ps ! i) = None \<longrightarrow> r = None"
    and "res = Inl (Thrown (case r of None \<Rightarrow> e | Some e' \<Rightarrow> e'))"
    and "r = None \<longrightarrow> records (mongo s') \<noteq> [] \<and>
      last (records (mongo s')) = \<lparr>version = v, status = Failed\<rparr>"
proof -
  let ?R = "RetrieveAllMigrationRecords :: 'e event"
  let ?f = "Invoke k v t (Some e)"
  have f: "is_failure ?f" using k by (cases k) simp_all
  have nr: "\<not> ran (manager s)"
  proof
    assume "ran (manager s)"
    with run have "s' = s" by (simp add: executePendingMigrations_ran)
    with split show False by simp
  qed
  have "\<exists>ps. fst (pending s) = Inr ps"
  proof (cases "fst (pending s)")
    case (Inl err)
    from executePendingMigrations_pending_fails [OF nr Inl] run
    have "trace s' = trace s @ [?R, ?R]" by simp
    with split have "[?R, ?R] = pre @ ?f # post" by simp
    from split_none [OF this, of is_failure] f show ?thesis by simp
  qed simp
  then obtain ps where pd: "fst (pending s) = Inr ps" ..
  have ne: "res \<noteq> Inr ()"
  proof
    assume "res = Inr ()"
    from executePendingMigrations_effect(2) [OF nr pd run this] obtain tss where
      "trace s' = trace s @ [?R, ?R] @ concat (map2 migrationEvents tss ps) @
        (if ps = [] then [] else [?R])"
      by blast
    with split have "[?R, ?R] @ concat (map2 migrationEvents tss ps) @
        (if ps = [] then [] else [?R]) = pre @ ?f # post"
      by simp
    moreover have "\<forall>x\<in>set ([?R, ?R] @ concat (map2 migrationEvents tss ps) @
        (if ps = [] then [] else [?R])). \<not> is_failure x"
      by (auto dest: migrationEvents_no_failure)
    ultimately have "\<not> is_failure ?f" by (rule split_none)
    with f show False by simp
  qed
  from executePendingMigrations_effect(3) [OF nr pd run ne]
  obtain i tss ts j where ij: "i < length ps" "length tss = i" "j < length ts"
    "aborted (ps ! i) (ts ! j)
        (trace s @ [?R, ?R] @ concat (map2 migrationEvents tss (take i ps)) @
           IterateTenants ts # concat (map (tenantEvents (ps ! i)) (take j ts))) s' res"
    by blast
  let ?m = "ps ! i" and ?t = "ts ! j"
  let ?A = "[?R, ?R] @ concat (map2 migrationEvents tss (take i ps)) @
           IterateTenants ts # concat (map (tenantEvents ?m) (take j ts))"
  from ij(4) obtain k' e' r where ab: "k' \<noteq> Down" "down ?m = None \<longrightarrow> r = None"
    "trace s' = (trace s @ [?R, ?R] @ concat (map2 migrationEvents tss (take i ps)) @
           IterateTenants ts # concat (map (tenantEvents ?m) (take j ts))) @
      failureEvents ?m ?t k' e' r"
    "res = Inl (Thrown (case r of None \<Rightarrow> e' | Some e'' \<Rightarrow> e''))"
    "r = None \<longrightarrow> records (mongo s') \<noteq> [] \<and>
           last (records (mongo s')) = \<lparr>version = version ?m, status = Failed\<rparr>"
    by (rule abortedE)
  let ?U = "?A @ (if k' = Test then [Invoke Up (version ?m) ?t None] else [])"
  from ab(3) split have eq: "?U @ Invoke k' (version ?m) ?t (Some e') # rollbackEvents ?m ?t r =
      pre @ ?f # post"
    by (simp add: failureEvents_def)
  have noU: "\<forall>x\<in>set ?U. \<not> is_failure x"
    by (auto dest: migrationEvents_no_failure tenantEvents_no_failure)
  have noV: "\<forall>x\<in>set (rollbackEvents ?m ?t r). \<not> is_failure x"
    by (auto dest: rollbackEvents_no_failure)
  from split_unique [OF eq noU f noV]
  have u: "pre = ?U" "?f = Invoke k' (version ?m) ?t (Some e')" "post = rollbackEvents ?m ?t r"
    by simp_all
  from u(2) have same: "k' = k" "v = version ?m" "t = ?t" "e' = e" by simp_all
  show ?thesis
  proof (rule that [OF nr pd ij(1,2,3) same(2,3), of r])
    show "pre = [?R, ?R] @ concat (map2 migrationEvents tss (take i ps)) @
      IterateTenants ts # concat (map (tenantEvents ?m) (take j ts)) @
      (if k = Test then [Invoke Up v t None] else [])"
      using u(1) same by simp
    show "post = rollbackEvents ?m t r" using u(3) same by simp
    show "down ?m = None \<longrightarrow> r = None" by (rule ab(2))
    show "res = Inl (Thrown (case r of None \<Rightarrow> e | Some e' \<Rightarrow> e'))"
      using ab(4) same(4) by (cases r) simp_all
    show "r = None \<longrightarrow> records (mongo s') \<noteq> [] \<and>
      last (records (mongo s')) = \<lparr>version = v, status = Failed\<rparr>"
      using ab(5) same by simp
  qed
qed

lemma migrationEvents_completed:
  assumes "CreateMigrationRecord w \<in> set (migrationEvents ts m)"
  shows "w = version m"
  using assms by (auto simp: migrationEvents_def tenantEvents_def split: option.splits)

lemma blocks_completed:
  assumes "CreateMigrationRecord w \<in> set (concat (map2 migrationEvents tss ms))"
  obtains m where "m \<in> set ms" and "w = version m"
proof -
  from assms obtain ts m where "(ts, m) \<in> set (zip tss ms)"
    "CreateMigrationRecord w \<in> set (migrationEvents ts m)"
    by auto
  then have "m \<in> set ms" "w = version m"
    by (auto dest: set_zip_rightD migrationEvents_completed)
  then show ?thesis by (rule that)
qed

lemma no_failed_record_before:
  "CreateFailedMigrationRecord w \<notin> set (migrationEvents ts m)"
  "CreateFailedMigrationRecord w \<notin> set (tenantEvents m t)"
  by (auto simp: migrationEvents_def tenantEvents_def split: option.splits)

lemma blocks_no_failed_record:
  "CreateFailedMigrationRecord w \<notin> set (concat (map2 migrationEvents tss ms))"
  by (auto simp: no_failed_record_before)

text \<open>
  C4, amended: take a run of \<^verbatim>\<open>executePendingMigrations\<close> in which \<^verbatim>\<open>up\<close> or \<^verbatim>\<open>test\<close>
  (hook \<open>k\<close>) fails with \<open>e\<close> for tenant \<open>t\<close> of the migration of version \<open>v\<close>. Then the
  migration is a pending one, \<open>ps ! i\<close>, and the tenant is the one at position \<open>j\<close> of the
  sequence \<open>ts\<close> that the tenant source yielded for it. Before the failure the run did
  the two reads, completed the pending migrations before \<open>ps ! i\<close> for every tenant
  yielded for them, and ran \<^verbatim>\<open>up\<close> (and \<^verbatim>\<open>test\<close>) successfully for the tenants of \<open>ts\<close>
  before \<open>t\<close>. After the failure it invoked \<^verbatim>\<open>down\<close> for \<open>t\<close> if the migration has one,
  with outcome \<open>r\<close>, and stopped: no later tenant and no later migration was touched,
  and the only completed records written are those of earlier pending migrations. The
  run fails. When \<^verbatim>\<open>down\<close> is absent or settled (\<open>r = None\<close>), the failed record for \<open>v\<close>
  was written, it is the last record of the store, and the error is the original \<open>e\<close>;
  when \<^verbatim>\<open>down\<close> failed with \<open>e'\<close>, nothing was written after it and the error is \<open>e'\<close>.
\<close>

theorem tenant_failure_aborts_run:
  fixes s :: "('d, 'e) state"
  assumes "executePendingMigrations s = (res, s')"
    and "trace s' = trace s @ pre @ Invoke k v t (Some e) # post"
    and "k \<noteq> Down"
  shows "\<exists>ps tss ts i j r. fst (pending s) = Inr ps \<and> i < length ps \<and> length tss = i \<and>
    j < length ts \<and> v = version (ps ! i) \<and> t = ts ! j \<and>
    pre = [RetrieveAllMigrationRecords, RetrieveAllMigrationRecords] @
      concat (map2 migrationEvents tss (take i ps)) @
      IterateTenants ts # concat (map (tenantEvents (ps ! i)) (take j ts)) @
      (if k = Test then [Invoke Up v t None] else []) \<and>
    post = (case down (ps ! i) of None \<Rightarrow> [] | Some d \<Rightarrow> [Invoke Down v t r]) @
      (case r of None \<Rightarrow> [CreateFailedMigrationRecord v] | Some e' \<Rightarrow> []) \<and>
    (down (ps ! i) = None \<longrightarrow> r = None) \<and>
    (\<forall>w. CreateMigrationRecord w \<in> set (pre @ post) \<longrightarrow> (\<exists>i'<i. w = version (ps ! i'))) \<and>
    res = Inl (Thrown (case r of None \<Rightarrow> e | Some e' \<Rightarrow> e')) \<and>
    (r = None \<longrightarrow> records (mongo s') \<noteq> [] \<and>
       last (records (mongo s')) = \<lparr>version = v, status = Failed\<rparr>)"
proof -
  from assms obtain ps tss ts i j r where f: "fst (pending s) = Inr ps"
    "i < length ps" "length tss = i" "j < length ts" "v = version (ps ! i)" "t = ts ! j"
    "pre = [RetrieveAllMigrationRecords, RetrieveAllMigrationRecords] @
      concat (map2 migrationEvents tss (take i ps)) @
      IterateTenants ts # concat (map (tenantEvents (ps ! i)) (take j ts)) @
      (if k = Test then [Invoke Up v t None] else [])"
    "post = rollbackEvents (ps ! i) t r"
    "down (ps ! i) = None \<longrightarrow> r = None"
    "res = Inl (Thrown (case r of None \<Rightarrow> e | Some e' \<Rightarrow> e'))"
    "r = None \<longrightarrow> records (mongo s') \<noteq> [] \<and>
      last (records (mongo s')) = \<lparr>version = v, status = Failed\<rparr>"
    by (rule failure_run)
  from f(8,5) have post: "post =
      (case down (ps ! i) of None \<Rightarrow> [] | Some d \<Rightarrow> [Invoke Down v t r]) @
      (case r of None \<Rightarrow> [CreateFailedMigrationRecord v] | Some e' \<Rightarrow> [])"
    by (simp add: rollbackEvents_def split: option.split)
  have completed: "\<forall>w. CreateMigrationRecord w \<in> set (pre @ post) \<longrightarrow> (\<exists>i'<i. w = version (ps ! i'))"
  proof (intro allI impI)
    fix w assume "CreateMigrationRecord w \<in> set (pre @ post)"
    then have "CreateMigrationRecord w \<in> set (concat (map2 migrationEvents tss (take i ps)))"
      unfolding f(7) post
      by (auto dest: tenantEvents_no_completed split: option.splits if_splits)
    then obtain m where m: "m \<in> set (take i ps)" "w = version m"
      by (rule blocks_completed)
    from m(1) obtain i' where "i' < length (take i ps)" "take i ps ! i' = m"
      by (auto simp: in_set_conv_nth)
    with f(2) have "i' < i" "m = ps ! i'" by simp_all
    with m(2) show "\<exists>i'<i. w = version (ps ! i')" by blast
  qed
  show ?thesis
    by (intro exI conjI)
      (rule f(1) f(2) f(3) f(4) f(5) f(6) f(7) post f(9) completed f(10) f(11))+
qed

theorem tenant_failure_aborts_run_witness:
  "trace (snd (executePendingMigrations
      (fresh [unit_plain 3, unit_up_fails 2, unit_plain 1] growing []))) =
     trace (fresh [unit_plain 3, unit_up_fails 2, unit_plain 1] growing []) @
     [RetrieveAllMigrationRecords, RetrieveAllMigrationRecords,
      IterateTenants [''t1''], Invoke Up 1 ''t1'' None, CreateMigrationRecord 1,
      IterateTenants [''t1'', ''t2'']] @
     Invoke Up 2 ''t1'' (Some ''up failed'') #
     [Invoke Down 2 ''t1'' None, CreateFailedMigrationRecord 2] \<and>
   Up \<noteq> Down \<and>
   (\<exists>ps tss ts i j r.
      fst (pending (fresh [unit_plain 3, unit_up_fails 2, unit_plain 1] growing [])) = Inr ps \<and>
      i < length ps \<and> length tss = i \<and> j < length ts \<and> 2 = version (ps ! i) \<and>
      ''t1'' = ts ! j \<and>
      [RetrieveAllMigrationRecords, RetrieveAllMigrationRecords,
       IterateTenants [''t1''], Invoke Up 1 ''t1'' None, CreateMigrationRecord 1,
       IterateTenants [''t1'', ''t2'']] =
      [RetrieveAllMigrationRecords, RetrieveAllMigrationRecords] @
      concat (map2 migrationEvents tss (take i ps)) @
      IterateTenants ts # concat (map (tenantEvents (ps ! i)) (take j ts)) @
      (if Up = Test then [Invoke Up 2 ''t1'' None] else []) \<and>
      [Invoke Down 2 ''t1'' None, CreateFailedMigrationRecord 2] =
      (case down (ps ! i) of None \<Rightarrow> [] | Some d \<Rightarrow> [Invoke Down 2 ''t1'' r]) @
      (case r of None \<Rightarrow> [CreateFailedMigrationRecord 2] | Some e' \<Rightarrow> []) \<and>
      (down (ps ! i) = None \<longrightarrow> r = None) \<and>
      (\<forall>w. CreateMigrationRecord w \<in> set
          ([RetrieveAllMigrationRecords, RetrieveAllMigrationRecords,
            IterateTenants [''t1''], Invoke Up 1 ''t1'' None, CreateMigrationRecord 1,
            IterateTenants [''t1'', ''t2'']] @
           [Invoke Down 2 ''t1'' None, CreateFailedMigrationRecord 2 :: string event]) \<longrightarrow>
         (\<exists>i'<i. w = version (ps ! i'))) \<and>
      fst (executePendingMigrations
        (fresh [unit_plain 3, unit_up_fails 2, unit_plain 1] growing [])) =
        Inl (Thrown (case r of None \<Rightarrow> ''up failed'' | Some e' \<Rightarrow> e')) \<and>
      (r = None \<longrightarrow>
         records (mongo (snd (executePendingMigrations
           (fresh [unit_plain 3, unit_up_fails 2, unit_plain 1] growing [])))) \<noteq> [] \<and>
         last (records (mongo (snd (executePendingMigrations
           (fresh [unit_plain 3, unit_up_fails 2, unit_plain 1] growing []))))) =
         \<lparr>version = 2, status = Failed\<rparr>)) \<and>
   fst (executePendingMigrations
      (fresh [unit_plain 3, unit_up_fails 2, unit_plain 1] growing [])) =
     Inl (Thrown ''up failed'') \<and>
   records (mongo (snd (executePendingMigrations
      (fresh [unit_plain 3, unit_up_fails 2, unit_plain 1] growing [])))) =
     [\<lparr>version = 1, status = Completed\<rparr>, \<lparr>version = 2, status = Failed\<rparr>]"
proof -
  let ?s = "fresh [unit_plain 3, unit_up_fails 2, unit_plain 1] growing []"
  let ?pre = "[RetrieveAllMigrationRecords, RetrieveAllMigrationRecords,
      IterateTenants [''t1''], Invoke Up 1 ''t1'' None, CreateMigrationRecord 1,
      IterateTenants [''t1'', ''t2'']] :: string event list"
  let ?post = "[Invoke Down 2 ''t1'' None, CreateFailedMigrationRecord 2] :: string event list"
  have run: "executePendingMigrations ?s =
    (fst (executePendingMigrations ?s), snd (executePendingMigrations ?s))"
    by simp
  have h2: "trace (snd (executePendingMigrations ?s)) =
    trace ?s @ ?pre @ Invoke Up 2 ''t1'' (Some ''up failed'') # ?post"
    by (simp add: example_defs run_defs)
  have h3: "Up \<noteq> Down" by simp
  note c = tenant_failure_aborts_run [OF run h2 h3]
  have e: "fst (executePendingMigrations ?s) = Inl (Thrown ''up failed'')"
    by (simp add: example_defs run_defs)
  have l: "records (mongo (snd (executePendingMigrations ?s))) =
     [\<lparr>version = 1, status = Completed\<rparr>, \<lparr>version = 2, status = Failed\<rparr>]"
    by (simp add: example_defs run_defs)
  show ?thesis by (intro conjI h2 h3 c e l)
qed

text \<open>
  The claim as first stated promises the failed record and the original error in every
  case, and that fails. Migrations 1, 2 and 3, tenants \<open>t1\<close> and \<open>t2\<close>; \<^verbatim>\<open>up\<close> of
  migration 2 fails for \<open>t1\<close>, and so does its \<^verbatim>\<open>down\<close>: the run ends with the error of
  \<^verbatim>\<open>down\<close>, and no failed record is written.
\<close>

theorem failing_down_leaves_no_failed_record:
  "fst (executePendingMigrations
      (fresh [unit_plain 1, unit_down_fails 2, unit_plain 3] (always [''t1'', ''t2'']) [])) =
     Inl (Thrown ''down failed'') \<and>
   trace (snd (executePendingMigrations
      (fresh [unit_plain 1, unit_down_fails 2, unit_plain 3] (always [''t1'', ''t2'']) []))) =
     [RetrieveAllMigrationRecords, RetrieveAllMigrationRecords,
      IterateTenants [''t1'', ''t2''],
      Invoke Up 1 ''t1'' None, Invoke Up 1 ''t2'' None, CreateMigrationRecord 1,
      IterateTenants [''t1'', ''t2''],
      Invoke Up 2 ''t1'' (Some ''up failed''), Invoke Down 2 ''t1'' (Some ''down failed'')] \<and>
   records (mongo (snd (executePendingMigrations
      (fresh [unit_plain 1, unit_down_fails 2, unit_plain 3] (always [''t1'', ''t2'']) [])))) =
     [\<lparr>version = 1, status = Completed\<rparr>]"
  by (simp add: example_defs run_defs)

text \<open>
  C5, amended: take a run of \<^verbatim>\<open>executePendingMigrations\<close> in which \<^verbatim>\<open>up\<close> or \<^verbatim>\<open>test\<close>
  (hook \<open>k\<close>) fails with \<open>e\<close> for tenant \<open>t\<close> of the migration of version \<open>v\<close>. Either the
  migration has no \<^verbatim>\<open>down\<close> hook or its \<^verbatim>\<open>down\<close> hook settles: then the failed record for
  \<open>v\<close> is written, it is the last thing the run does and the last record of the store,
  and the run fails with the original error \<open>e\<close>. Or the \<^verbatim>\<open>down\<close> hook fails with some
  \<open>e'\<close>: then that is the last thing the run does, the run fails with \<open>e'\<close>, and it
  writes no failed record at all.
\<close>

theorem failed_record_before_rethrow:
  fixes s :: "('d, 'e) state"
  assumes "executePendingMigrations s = (res, s')"
    and "trace s' = trace s @ pre @ Invoke k v t (Some e) # post"
    and "k \<noteq> Down"
  shows "(res = Inl (Thrown e) \<and>
      (post = [CreateFailedMigrationRecord v] \<or>
       post = [Invoke Down v t None, CreateFailedMigrationRecord v]) \<and>
      records (mongo s') \<noteq> [] \<and>
      last (records (mongo s')) = \<lparr>version = v, status = Failed\<rparr>) \<or>
    (\<exists>e'. post = [Invoke Down v t (Some e')] \<and> res = Inl (Thrown e') \<and>
      (\<forall>w. CreateFailedMigrationRecord w \<notin> set (pre @ post)))"
proof -
  from assms obtain ps tss ts i j r where f: "fst (pending s) = Inr ps"
    "i < length ps" "length tss = i" "j < length ts" "v = version (ps ! i)" "t = ts ! j"
    "pre = [RetrieveAllMigrationRecords, RetrieveAllMigrationRecords] @
      concat (map2 migrationEvents tss (take i ps)) @
      IterateTenants ts # concat (map (tenantEvents (ps ! i)) (take j ts)) @
      (if k = Test then [Invoke Up v t None] else [])"
    "post = rollbackEvents (ps ! i) t r"
    "down (ps ! i) = None \<longrightarrow> r = None"
    "res = Inl (Thrown (case r of None \<Rightarrow> e | Some e' \<Rightarrow> e'))"
    "r = None \<longrightarrow> records (mongo s') \<noteq> [] \<and>
      last (records (mongo s')) = \<lparr>version = v, status = Failed\<rparr>"
    by (rule failure_run)
  show ?thesis
  proof (cases r)
    case None
    with f(8,5) have "post = [CreateFailedMigrationRecord v] \<or>
       post = [Invoke Down v t None, CreateFailedMigrationRecord v]"
      by (simp add: rollbackEvents_def split: option.splits)
    with None f(10,11) show ?thesis by simp
  next
    case (Some e')
    with f(9) obtain d where "down (ps ! i) = Some d" by auto
    with Some f(8,5) have post: "post = [Invoke Down v t (Some e')]"
      by (simp add: rollbackEvents_def)
    have "CreateFailedMigrationRecord w \<notin> set (pre @ post)" for w
      using blocks_no_failed_record [of w tss "take i ps"]
      unfolding f(7) post by (auto simp: no_failed_record_before)
    with post Some f(10) show ?thesis by simp
  qed
qed

theorem failed_record_before_rethrow_witness:
  "trace (snd (executePendingMigrations (fresh [unit_up_fails 5] (always [''a'']) []))) =
     trace (fresh [unit_up_fails 5] (always [''a'']) []) @
     [RetrieveAllMigrationRecords, RetrieveAllMigrationRecords, IterateTenants [''a'']] @
     Invoke Up 5 ''a'' (Some ''up failed'') #
     [Invoke Down 5 ''a'' None, CreateFailedMigrationRecord 5] \<and>
   Up \<noteq> Down \<and>
   fst (executePendingMigrations (fresh [unit_up_fails 5] (always [''a'']) [])) =
     Inl (Thrown ''up failed'') \<and>
   last (records (mongo (snd (executePendingMigrations (fresh [unit_up_fails 5] (always [''a'']) []))))) =
     \<lparr>version = 5, status = Failed\<rparr>"
proof -
  let ?s = "fresh [unit_up_fails 5] (always [''a'']) []"
  let ?pre = "[RetrieveAllMigrationRecords, RetrieveAllMigrationRecords, IterateTenants [''a'']]
    :: string event list"
  let ?post = "[Invoke Down 5 ''a'' None, CreateFailedMigrationRecord 5] :: string event list"
  have run: "executePendingMigrations ?s =
    (fst (executePendingMigrations ?s), snd (executePendingMigrations ?s))"
    by simp
  have h2: "trace (snd (executePendingMigrations ?s)) =
    trace ?s @ ?pre @ Invoke Up 5 ''a'' (Some ''up failed'') # ?post"
    by (simp add: example_defs run_defs)
  have h3: "Up \<noteq> Down" by simp
  from failed_record_before_rethrow [OF run h2 h3]
  have c: "fst (executePendingMigrations ?s) = Inl (Thrown ''up failed'')"
    "last (records (mongo (snd (executePendingMigrations ?s)))) = \<lparr>version = 5, status = Failed\<rparr>"
    by simp_all
  show ?thesis by (intro conjI h2 h3 c)
qed

text \<open>
  The second case does occur. One migration, one tenant; \<^verbatim>\<open>test\<close> fails and then \<^verbatim>\<open>down\<close>
  fails: the run ends with the error of \<^verbatim>\<open>down\<close> and the record store stays empty.
\<close>

theorem failing_down_masks_test_failure:
  "fst (executePendingMigrations (fresh [unit_test_fails 2] (always [''t1'']) [])) =
     Inl (Thrown ''down failed'') \<and>
   trace (snd (executePendingMigrations (fresh [unit_test_fails 2] (always [''t1'']) []))) =
     [RetrieveAllMigrationRecords, RetrieveAllMigrationRecords, IterateTenants [''t1''],
      Invoke Up 2 ''t1'' None, Invoke Test 2 ''t1'' (Some ''test failed''),
      Invoke Down 2 ''t1'' (Some ''down failed'')] \<and>
   records (mongo (snd (executePendingMigrations (fresh [unit_test_fails 2] (always [''t1'']) [])))) = []"
  by (simp add: example_defs run_defs)

end
